theory Spec2Isabelle
  imports Main "HOL-Library.Word"
begin

unbundle bit_operations_syntax

section \<open>Octets, buffers and errors\<close>

text \<open>
  A Node \<open>Buffer\<close> is a list of octets.  Reading it at an index outside the buffer gives
  \<open>undefined\<close> in JavaScript, which is \<open>None\<close> here.  \<open>buf.subarray(a, b)\<close> clamps both
  bounds to the buffer, which is what \<open>take\<close> and \<open>drop\<close> do.
\<close>

type_synonym byte = "8 word"
type_synonym buffer = "byte list"

definition index :: "buffer \<Rightarrow> nat \<Rightarrow> byte option" where
  "index buf i = (if i < length buf then Some (buf ! i) else None)"

definition subarray :: "buffer \<Rightarrow> nat \<Rightarrow> nat \<Rightarrow> buffer" where
  "subarray buf start end = take (end - start) (drop start buf)"

text \<open>
  The errors of a query.  \<open>RangeError\<close> is what the fixed-width reads of \<open>Buffer\<close> throw
  when the offset leaves the buffer; \<open>DecompressError\<close> stands for whatever
  \<open>Bunzip.decode\<close> throws; \<open>SocketNotRunning\<close> is what \<open>socket.close()\<close> throws on a
  socket that is closed already; the others carry the messages of \<open>source.ts\<close>.
\<close>

datatype error =
    RangeError
  | UnknownResponseType
  | DecompressError
  | ChecksumMismatch "32 word" "32 word"
  | RequestTimedOut
  | MaxRetriesReached
  | InvalidResponseHeader
  | SocketError
  | SocketNotRunning

section \<open>BufferReader (src/lib/buffer-reader.ts)\<close>

record reader =
  buffer :: buffer
  offset :: nat

definition byteLength :: "reader \<Rightarrow> nat" where
  "byteLength r = length (buffer r)"

definition getOffset :: "reader \<Rightarrow> nat" where
  "getOffset r = offset r"

definition skip :: "nat \<Rightarrow> reader \<Rightarrow> reader" where
  "skip bytes r = r\<lparr>offset := offset r + bytes\<rparr>"

text \<open>Little-endian composition of the octets of a fixed-width value.\<close>

definition le16 :: "byte \<Rightarrow> byte \<Rightarrow> nat" where
  "le16 b0 b1 = unat b0 + 256 * unat b1"

definition le32 :: "byte \<Rightarrow> byte \<Rightarrow> byte \<Rightarrow> byte \<Rightarrow> 32 word" where
  "le32 b0 b1 b2 b3 =
     ucast b0 OR push_bit 8 (ucast b1) OR push_bit 16 (ucast b2) OR push_bit 24 (ucast b3)"

definition le64 :: "buffer \<Rightarrow> 64 word" where
  "le64 bs = foldr (\<lambda>b w. ucast b OR push_bit 8 w) bs 0"

text \<open>
  Each read takes the reader and returns the value with the advanced reader, or the
  \<open>RangeError\<close> that the underlying \<open>Buffer\<close> read throws when fewer octets are left than
  the width of the value.  Unsigned values are \<open>nat\<close>; the 32-bit signed read returns the
  32-bit word itself (\<open>-1\<close> is \<open>0xFFFFFFFF\<close>); a 32-bit float is kept as its bit pattern.
\<close>

type_synonym 'a rd = "reader \<Rightarrow> error + ('a \<times> reader)"

definition readUint8 :: "nat rd" where
  "readUint8 r =
     (if offset r + 1 \<le> length (buffer r)
      then Inr (unat (buffer r ! offset r), r\<lparr>offset := offset r + 1\<rparr>)
      else Inl RangeError)"

definition readInt8 :: "int rd" where
  "readInt8 r =
     (if offset r + 1 \<le> length (buffer r)
      then Inr (sint (buffer r ! offset r), r\<lparr>offset := offset r + 1\<rparr>)
      else Inl RangeError)"

definition readUint16 :: "nat rd" where
  "readUint16 r =
     (if offset r + 2 \<le> length (buffer r)
      then Inr (le16 (buffer r ! offset r) (buffer r ! (offset r + 1)),
                r\<lparr>offset := offset r + 2\<rparr>)
      else Inl RangeError)"

definition read32 :: "(32 word) rd" where
  "read32 r =
     (if offset r + 4 \<le> length (buffer r)
      then Inr (le32 (buffer r ! offset r) (buffer r ! (offset r + 1))
                     (buffer r ! (offset r + 2)) (buffer r ! (offset r + 3)),
                r\<lparr>offset := offset r + 4\<rparr>)
      else Inl RangeError)"

definition readInt32 :: "(32 word) rd" where
  "readInt32 = read32"

definition readUint32 :: "nat rd" where
  "readUint32 r = (case read32 r of Inl e \<Rightarrow> Inl e | Inr (w, r') \<Rightarrow> Inr (unat w, r'))"

definition readFloat32 :: "(32 word) rd" where
  "readFloat32 = read32"

definition readBigUint64 :: "(64 word) rd" where
  "readBigUint64 r =
     (if offset r + 8 \<le> length (buffer r)
      then Inr (le64 (take 8 (drop (offset r) (buffer r))), r\<lparr>offset := offset r + 8\<rparr>)
      else Inl RangeError)"

text \<open>
  A JavaScript string is the list of its UTF-16 code units.  \<open>ascii\<close> writes one down
  from its ASCII text.
\<close>

type_synonym jstring = "16 word list"

definition ascii :: "string \<Rightarrow> jstring" where
  "ascii s = map (\<lambda>c. of_nat (of_char c)) s"

definition fromCharCode :: "nat \<Rightarrow> jstring" where
  "fromCharCode n = [of_nat n]"

text \<open>
  \<open>buf.toString('utf-8', start, end)\<close> decodes UTF-8.  The decoder goes through the
  octets with the code point collected so far (six more bits from each continuation
  octet), the number of continuation octets still needed and the bounds for the next one; an octet that cannot begin or continue a
  sequence gives U+FFFD and, when it broke a sequence off, is looked at again as a first
  octet; a sequence cut off by the end gives U+FFFD.  A code point above U+FFFF is two
  code units.
\<close>

fun utf8 :: "32 word \<Rightarrow> nat \<Rightarrow> byte \<Rightarrow> byte \<Rightarrow> buffer \<Rightarrow> 32 word list" where
  "utf8 cp needed lower upper [] = (if needed = 0 then [] else [0xFFFD])"
| "utf8 cp needed lower upper (b # bs) =
     (if needed \<noteq> 0 \<and> lower \<le> b \<and> b \<le> upper
      then (if needed = 1
            then (push_bit 6 cp OR ucast (b AND 0x3F)) # utf8 0 0 0x80 0xBF bs
            else utf8 (push_bit 6 cp OR ucast (b AND 0x3F)) (needed - 1) 0x80 0xBF bs)
      else (if needed \<noteq> 0 then [0xFFFD] else []) @
           (if b \<le> 0x7F then ucast b # utf8 0 0 0x80 0xBF bs
            else if 0xC2 \<le> b \<and> b \<le> 0xDF then utf8 (ucast (b AND 0x1F)) 1 0x80 0xBF bs
            else if 0xE0 \<le> b \<and> b \<le> 0xEF
            then utf8 (ucast (b AND 0xF)) 2 (if b = 0xE0 then 0xA0 else 0x80)
                      (if b = 0xED then 0x9F else 0xBF) bs
            else if 0xF0 \<le> b \<and> b \<le> 0xF4
            then utf8 (ucast (b AND 7)) 3 (if b = 0xF0 then 0x90 else 0x80)
                      (if b = 0xF4 then 0x8F else 0xBF) bs
            else 0xFFFD # utf8 0 0 0x80 0xBF bs))"

definition units :: "32 word \<Rightarrow> jstring" where
  "units cp =
     (if cp < 0x10000 then [ucast cp]
      else [ucast (0xD800 + drop_bit 10 (cp - 0x10000)),
            ucast (0xDC00 + ((cp - 0x10000) AND 0x3FF))])"

definition utf8_decode :: "buffer \<Rightarrow> jstring" where
  "utf8_decode bs = concat (map units (utf8 0 0 0x80 0xBF bs))"

definition toString :: "buffer \<Rightarrow> nat \<Rightarrow> nat \<Rightarrow> jstring" where
  "toString buf start end = utf8_decode (subarray buf start end)"

text \<open>
  \<open>readString\<close>: the loop
  \<^verbatim>\<open>while (this.buffer[this.offset] !== 0x00 && this.offset < this.buffer.length) this.offset++\<close>
  as a recursive scan, then one more step over the terminator.  The string is what
  \<open>toString\<close> decodes from the start to where the scan stopped.
\<close>

function scan :: "buffer \<Rightarrow> nat \<Rightarrow> nat" where
  "scan buf off =
     (if index buf off \<noteq> Some 0 \<and> off < length buf then scan buf (Suc off) else off)"
  by pat_completeness auto
termination
  by (relation "measure (\<lambda>(buf, off). length buf - off)") auto

declare scan.simps [simp del]

definition readString :: "reader \<Rightarrow> jstring \<times> reader" where
  "readString r =
     (let start = offset r;
          end = scan (buffer r) (offset r)
      in (toString (buffer r) start end, r\<lparr>offset := end + 1\<rparr>))"

text \<open>Sequencing of reads; the first error ends the sequence, as the exception does.\<close>

definition rbind :: "'a rd \<Rightarrow> ('a \<Rightarrow> 'b rd) \<Rightarrow> 'b rd" where
  "rbind m f r = (case m r of Inl e \<Rightarrow> Inl e | Inr (a, r') \<Rightarrow> f a r')"

definition rreturn :: "'a \<Rightarrow> 'a rd" where
  "rreturn a r = Inr (a, r)"

definition str :: "jstring rd" where
  "str r = Inr (readString r)"

section \<open>Decoded results (src/interfaces/source.interface.ts)\<close>

record extraData =
  port :: "nat option"
  steamID :: "64 word option"
  tvPort :: "nat option"
  tvName :: "jstring option"
  keywords' :: "jstring option"
  gameID :: "64 word option"

record modInfo =
  link :: jstring
  downloadLink :: jstring
  mod_version :: nat
  mod_size :: nat
  mod_type :: nat
  dll :: nat

record serverInfo =
  protocol :: nat
  name :: jstring
  map_name :: jstring
  folder :: jstring
  game :: jstring
  players :: nat
  maxPlayers :: nat
  bots :: nat
  serverType :: jstring
  environment :: jstring
  visibility :: nat
  vac :: nat
  app_id :: "nat option"
  version :: "jstring option"
  extra :: "extraData option"
  address :: "jstring option"
  mod_info :: "modInfo option"

record playerInfo =
  player_index :: nat
  player_name :: jstring
  score :: nat
  duration :: "32 word"
  deaths :: "nat option"
  money :: "nat option"

datatype response =
    Info serverInfo
  | Players "playerInfo list"
  | Rules "(jstring \<times> jstring) list"

section \<open>Response decoders (src/source.ts)\<close>

text \<open>A field that is read only when its bit of the extra-data flag is set.\<close>

definition opt :: "bool \<Rightarrow> 'a rd \<Rightarrow> 'a option rd" where
  "opt present m = (if present then rbind m (\<lambda>v. rreturn (Some v)) else rreturn None)"

definition parseExtraData :: "extraData rd" where
  "parseExtraData =
     rbind readUint8 (\<lambda>extraDataFlag.
     rbind (opt (extraDataFlag AND 0x80 \<noteq> 0) readUint16) (\<lambda>port.
     rbind (opt (extraDataFlag AND 0x10 \<noteq> 0) readBigUint64) (\<lambda>steamID.
     rbind (opt (extraDataFlag AND 0x40 \<noteq> 0) readUint16) (\<lambda>tvPort.
     rbind (opt (extraDataFlag AND 0x40 \<noteq> 0) str) (\<lambda>tvName.
     rbind (opt (extraDataFlag AND 0x20 \<noteq> 0) str) (\<lambda>keywords.
     rbind (opt (extraDataFlag AND 0x01 \<noteq> 0) readBigUint64) (\<lambda>gameID.
     rreturn \<lparr>port = port, steamID = steamID, tvPort = tvPort, tvName = tvName,
              keywords' = keywords, gameID = gameID\<rparr>)))))))"

definition parseInfoFields :: "serverInfo rd" where
  "parseInfoFields =
     rbind readUint8 (\<lambda>protocol.
     rbind str (\<lambda>name.
     rbind str (\<lambda>map.
     rbind str (\<lambda>folder.
     rbind str (\<lambda>game.
     rbind readUint16 (\<lambda>id.
     rbind readUint8 (\<lambda>players.
     rbind readUint8 (\<lambda>maxPlayers.
     rbind readUint8 (\<lambda>bots.
     rbind readUint8 (\<lambda>serverType.
     rbind readUint8 (\<lambda>environment.
     rbind readUint8 (\<lambda>visibility.
     rbind readUint8 (\<lambda>vac.
     rbind str (\<lambda>version.
     rreturn \<lparr>protocol = protocol, name = name, map_name = map, folder = folder,
              game = game, players = players, maxPlayers = maxPlayers, bots = bots,
              serverType = fromCharCode serverType,
              environment = fromCharCode environment,
              visibility = visibility, vac = vac, app_id = Some id,
              version = Some version, extra = None, address = None,
              mod_info = None\<rparr>))))))))))))))"

definition parseInfoResponse :: "reader \<Rightarrow> error + serverInfo" where
  "parseInfoResponse reader =
     (case parseInfoFields reader of
        Inl e \<Rightarrow> Inl e
      | Inr (info, reader) \<Rightarrow>
          if getOffset reader < byteLength reader
          then (case parseExtraData reader of
                  Inl e \<Rightarrow> Inl e
                | Inr (extraData, reader) \<Rightarrow> Inr (info\<lparr>extra := Some extraData\<rparr>))
          else Inr info)"

definition parseMod :: "modInfo rd" where
  "parseMod =
     rbind str (\<lambda>link.
     rbind str (\<lambda>downloadLink.
     rbind (\<lambda>r. Inr ((), skip 1 r)) (\<lambda>_.
     rbind readUint32 (\<lambda>version.
     rbind readUint32 (\<lambda>size.
     rbind readUint8 (\<lambda>type.
     rbind readUint8 (\<lambda>dll.
     rreturn \<lparr>link = link, downloadLink = downloadLink, mod_version = version,
              mod_size = size, mod_type = type, dll = dll\<rparr>)))))))"

definition parseInfoObsoleteFields :: "serverInfo rd" where
  "parseInfoObsoleteFields =
     rbind str (\<lambda>address.
     rbind str (\<lambda>name.
     rbind str (\<lambda>map.
     rbind str (\<lambda>folder.
     rbind str (\<lambda>game.
     rbind readUint8 (\<lambda>players.
     rbind readUint8 (\<lambda>maxPlayers.
     rbind readUint8 (\<lambda>protocol.
     rbind readUint8 (\<lambda>serverType.
     rbind readUint8 (\<lambda>environment.
     rbind readUint8 (\<lambda>visibility.
     rbind readUint8 (\<lambda>isMod.
     rbind (opt (isMod = 1) parseMod) (\<lambda>modInfo.
     rbind readUint8 (\<lambda>vac.
     rbind readUint8 (\<lambda>bots.
     rreturn \<lparr>protocol = protocol, name = name, map_name = map, folder = folder,
              game = game, players = players, maxPlayers = maxPlayers, bots = bots,
              serverType = fromCharCode serverType,
              environment = fromCharCode environment,
              visibility = visibility, vac = vac, app_id = None, version = None,
              extra = None, address = Some address, mod_info = modInfo\<rparr>)))))))))))))))"

definition parseInfoObsoleteResponse :: "reader \<Rightarrow> error + serverInfo" where
  "parseInfoObsoleteResponse reader =
     (case parseInfoObsoleteFields reader of
        Inl e \<Rightarrow> Inl e
      | Inr (info, reader) \<Rightarrow> Inr info)"

text \<open>The first loop of \<open>parsePlayerResponse\<close>, one base record per player.\<close>

fun readPlayers :: "nat \<Rightarrow> playerInfo list rd" where
  "readPlayers 0 = rreturn []"
| "readPlayers (Suc n) =
     rbind readUint8 (\<lambda>index.
     rbind str (\<lambda>name.
     rbind readUint32 (\<lambda>score.
     rbind readFloat32 (\<lambda>duration.
     rbind (readPlayers n) (\<lambda>rest.
     rreturn (\<lparr>player_index = index, player_name = name, score = score,
               duration = duration, deaths = None, money = None\<rparr> # rest))))))"

text \<open>The second loop: deaths and money of each player, in the same order.\<close>

fun readShip :: "playerInfo list \<Rightarrow> playerInfo list rd" where
  "readShip [] = rreturn []"
| "readShip (p # ps) =
     rbind readUint32 (\<lambda>deaths.
     rbind readUint32 (\<lambda>money.
     rbind (readShip ps) (\<lambda>rest.
     rreturn (p\<lparr>deaths := Some deaths, money := Some money\<rparr> # rest))))"

definition parsePlayerResponse :: "reader \<Rightarrow> error + playerInfo list" where
  "parsePlayerResponse reader =
     (case rbind readUint8 readPlayers reader of
        Inl e \<Rightarrow> Inl e
      | Inr (playerList, reader) \<Rightarrow>
          if getOffset reader < byteLength reader
          then (case readShip playerList reader of
                  Inl e \<Rightarrow> Inl e
                | Inr (playerList, reader) \<Rightarrow> Inr playerList)
          else Inr playerList)"

text \<open>
  \<open>rules[key] = value\<close> on the rules object, a plain object that is listed by its
  entries in the order in which JavaScript lists own properties: the keys that are array
  indices (the decimal numerals of 0 to 4294967294, without leading zero) first, in
  ascending numeric order, then the other keys in the order of their creation.  Two such
  numerals are compared by length, then digit by digit.  A key
  already present keeps its place and takes the new value.  The key \<open>__proto__\<close> creates
  nothing: the assignment reaches the setter of \<open>Object.prototype\<close>, which ignores a string.
\<close>

fun below :: "jstring \<Rightarrow> jstring \<Rightarrow> bool" where
  "below (a # as) (b # bs) = (a < b \<or> a = b \<and> below as bs)"
| "below _ _ = False"

definition numLess :: "jstring \<Rightarrow> jstring \<Rightarrow> bool" where
  "numLess j k = (length j < length k \<or> length j = length k \<and> below j k)"

definition arrayIndex :: "jstring \<Rightarrow> bool" where
  "arrayIndex key =
     (key \<noteq> [] \<and> list_all (\<lambda>u. 0x30 \<le> u \<and> u \<le> 0x39) key
      \<and> (length key = 1 \<or> hd key \<noteq> 0x30) \<and> numLess key (ascii ''4294967295''))"

fun create :: "jstring \<Rightarrow> jstring \<Rightarrow> (jstring \<times> jstring) list \<Rightarrow> (jstring \<times> jstring) list" where
  "create key v [] = [(key, v)]"
| "create key v ((k, w) # rules) =
     (if arrayIndex key
      then (if arrayIndex k
            then (if numLess key k then (key, v) # (k, w) # rules
                  else (k, w) # create key v rules)
            else (key, v) # (k, w) # rules)
      else (k, w) # create key v rules)"

definition assign :: "jstring \<Rightarrow> jstring \<Rightarrow> (jstring \<times> jstring) list \<Rightarrow> (jstring \<times> jstring) list" where
  "assign key v rules =
     (if key = ascii ''__proto__'' then rules
      else if key \<in> fst ` set rules
      then map (\<lambda>(k, w). if k = key then (k, v) else (k, w)) rules
      else create key v rules)"

fun readRules :: "nat \<Rightarrow> (jstring \<times> jstring) list \<Rightarrow> (jstring \<times> jstring) list rd" where
  "readRules 0 rules = rreturn rules"
| "readRules (Suc n) rules =
     rbind str (\<lambda>key.
     rbind str (\<lambda>v.
     readRules n (assign key v rules)))"

definition parseRulesResponse :: "reader \<Rightarrow> error + (jstring \<times> jstring) list" where
  "parseRulesResponse reader =
     (case rbind readUint16 (\<lambda>ruleCount. readRules ruleCount []) reader of
        Inl e \<Rightarrow> Inl e
      | Inr (rules, reader) \<Rightarrow> Inr rules)"

text \<open>
  \<open>parseResponse\<close>: the discriminator is the octet at offset 4, read as a signed
  octet; the four octets before it are skipped without being looked at.
\<close>

definition parseResponse :: "buffer \<Rightarrow> error + response" where
  "parseResponse payload =
     (case readInt8 \<lparr>buffer = payload, offset = 4\<rparr> of
        Inl e \<Rightarrow> Inl e
      | Inr (header, reader) \<Rightarrow>
          if header = 0x49 then map_sum id Info (parseInfoResponse reader)
          else if header = 0x6D then map_sum id Info (parseInfoObsoleteResponse reader)
          else if header = 0x44 then map_sum id Players (parsePlayerResponse reader)
          else if header = 0x45 then map_sum id Rules (parseRulesResponse reader)
          else Inl UnknownResponseType)"

section \<open>The query engine (\<open>Source.get\<close> in src/source.ts)\<close>

text \<open>
  What a call is given: the request discriminator \<open>header\<close> (\<open>0x54\<close> info, \<open>0x55\<close>
  players, \<open>0x56\<close> rules) and the two library functions that the source imports and that
  are not part of the repository, \<open>Bunzip.decode\<close> of seek-bzip (\<open>None\<close> when it throws) and
  \<open>crc32.buf\<close> of crc-32 (a signed 32-bit value, kept as the 32-bit word).
\<close>

record config =
  header :: byte
  bunzip :: "buffer \<Rightarrow> buffer option"
  crc32_buf :: "buffer \<Rightarrow> 32 word"

text \<open>
  What a call does to the outside is recorded in order: the datagrams it sends, the calls
  of \<open>resolve\<close>, \<open>reject\<close> and \<open>socket.close()\<close>, and the lines of the debug trace that
  mark a decision (\<open>Recv\<close> at every entry of \<open>onMessage\<close>, the two dialect detections,
  \<open>Reload\<close> at every entry of \<open>reload\<close>, \<open>Payload\<close> for the assembled octets).
\<close>

datatype flag = GoldSource | OrangeBox

datatype event =
    Send buffer
  | Recv buffer
  | Detected flag
  | Reload
  | Payload buffer
  | Resolve response
  | Reject error
  | Close

text \<open>
  The variables that the closures of \<open>get\<close> share.  \<open>packets\<close> is an object whose keys are
  packet numbers; JavaScript lists such keys in ascending numeric order, whatever
  the order of insertion, so the object is the list of its entries in ascending key order.
\<close>

record state =
  retryCount :: nat
  packets :: "(nat \<times> buffer) list"
  isCompressed :: bool
  crc32CheckSum :: "32 word"
  goldSource :: bool
  orangeBox :: bool
  events :: "event list"

definition emit :: "event \<Rightarrow> state \<Rightarrow> state" where
  "emit e s = s\<lparr>events := events s @ [e]\<rparr>"

text \<open>
  A dialect assumption is given up: the trace line, then \<open>goldSource = true\<close> or
  \<open>orangeBox = false\<close>.
\<close>

definition demote :: "flag \<Rightarrow> state \<Rightarrow> state" where
  "demote f s =
     (let s = emit (Detected f) s
      in case f of GoldSource \<Rightarrow> s\<lparr>goldSource := True\<rparr> | OrangeBox \<Rightarrow> s\<lparr>orangeBox := False\<rparr>)"

text \<open>\<open>packets[packetNumber] = message\<close>.\<close>

fun put :: "nat \<Rightarrow> buffer \<Rightarrow> (nat \<times> buffer) list \<Rightarrow> (nat \<times> buffer) list" where
  "put k v [] = [(k, v)]"
| "put k v ((k', v') # ps) =
     (if k = k' then (k, v) # ps
      else if k < k' then (k, v) # (k', v') # ps
      else (k', v') # put k v ps)"

text \<open>
  A handler either returns, or throws with the shared variables as they are at the
  throw.  \<open>OutOfFuel\<close> is not a behaviour of the source: it marks a nesting of \<open>reload\<close>
  deeper than the bound given to \<open>onMessageN\<close> below.
\<close>

datatype outcome =
    Done state
  | Thrown error state
  | OutOfFuel

fun final :: "outcome \<Rightarrow> state option" where
  "final (Done s) = Some s"
| "final (Thrown e s) = Some s"
| "final OutOfFuel = None"

definition maxRetries :: nat where
  "maxRetries = 2"

definition A2S_CHALLENGE_RESPONSE_HEADER :: byte where
  "A2S_CHALLENGE_RESPONSE_HEADER = 0x41"

definition A2S_MULTI_PACKET_HEADER :: "32 word" where
  "A2S_MULTI_PACKET_HEADER = - 2"

definition A2S_SINGLE_PACKET_HEADER :: "32 word" where
  "A2S_SINGLE_PACKET_HEADER = - 1"

definition firstPacketPayloadHeader :: buffer where
  "firstPacketPayloadHeader = [0xFF, 0xFF, 0xFF, 0xFF]"

text \<open>
  \<open>sendRequest\<close>.  A challenge that is passed is always appended, because a \<open>Buffer\<close> is
  truthy even when it is empty.
\<close>

definition request :: "byte \<Rightarrow> buffer option \<Rightarrow> buffer" where
  "request h challenge =
     (let request = [0xFF, 0xFF, 0xFF, 0xFF, h];
          request = (if h = 0x54
                     then request @ [0x53, 0x6F, 0x75, 0x72, 0x63, 0x65, 0x20, 0x45, 0x6E, 0x67,
                                     0x69, 0x6E, 0x65, 0x20, 0x51, 0x75, 0x65, 0x72, 0x79, 0x00]
                     else request)
      in case challenge of
           Some c \<Rightarrow> request @ c
         | None \<Rightarrow> if h \<noteq> 0x54 then request @ [0xFF, 0xFF, 0xFF, 0xFF] else request)"

definition sendRequest :: "config \<Rightarrow> buffer option \<Rightarrow> state \<Rightarrow> state" where
  "sendRequest c challenge s = emit (Send (request (header c) challenge)) s"

text \<open>
  \<open>socket.close()\<close> where the socket can be closed already: a handler invocation nested
  in \<open>reload\<close> can come after one that resolved and closed, and closing a closed socket
  throws.  (The two branches of \<open>onMessage\<close> that reject are entered with the socket open:
  a closed socket delivers no datagram, and \<open>reload\<close> passes only datagrams that went into
  the multi-packet branch before.)
\<close>

definition closeSocket :: "state \<Rightarrow> outcome" where
  "closeSocket s =
     (if Close \<in> set (events s) then Thrown SocketNotRunning s else Done (emit Close s))"

text \<open>\<open>resolve(parseResponse(payload)); socket.close();\<close>\<close>

definition dispatch :: "state \<Rightarrow> buffer \<Rightarrow> outcome" where
  "dispatch s payload =
     (case parseResponse payload of
        Inl e \<Rightarrow> Thrown e s
      | Inr data \<Rightarrow> closeSocket (emit (Resolve data) s))"

text \<open>
  \<open>reload\<close>: the buffered datagrams, then the current one if there is one, go through
  the handler \<open>h\<close> again, starting from an empty \<open>packets\<close>.  An exception in one of them
  ends the loop.
\<close>

fun reloadLoop :: "(state \<Rightarrow> buffer \<Rightarrow> outcome) \<Rightarrow> state \<Rightarrow> buffer list \<Rightarrow> outcome" where
  "reloadLoop h s [] = Done s"
| "reloadLoop h s (message # entries) =
     (case h s message of
        Done s' \<Rightarrow> reloadLoop h s' entries
      | Thrown e s' \<Rightarrow> Thrown e s'
      | OutOfFuel \<Rightarrow> OutOfFuel)"

definition reload :: "(state \<Rightarrow> buffer \<Rightarrow> outcome) \<Rightarrow> state \<Rightarrow> buffer option \<Rightarrow> outcome" where
  "reload h s message =
     (let s = emit Reload s;
          entries = map snd (packets s);
          s = s\<lparr>packets := []\<rparr>;
          entries = (case message of Some m \<Rightarrow> entries @ [m] | None \<Rightarrow> entries)
      in reloadLoop h s entries)"

text \<open>
  The block of \<open>onMessage\<close> that runs when the number of buffered keys equals the
  declared total: the fragments in ascending key order, each cut at the offset its framing
  gives, concatenated; decompression and the checksum when the response is compressed;
  then the decoder.
\<close>

definition fragment :: "state \<Rightarrow> nat \<times> buffer \<Rightarrow> buffer" where
  "fragment s = (\<lambda>(id, packet).
     if goldSource s then drop 9 packet
     else drop (10 + (if orangeBox s then 2 else 0)
                   + (if id = 0 \<and> isCompressed s then 8 else 0)) packet)"

definition assemble :: "state \<Rightarrow> buffer" where
  "assemble s = concat (map (fragment s) (sort_key fst (packets s)))"

definition complete :: "config \<Rightarrow> (state \<Rightarrow> buffer \<Rightarrow> outcome) \<Rightarrow> state \<Rightarrow> outcome" where
  "complete c h s =
     (let assembledPayload = assemble s;
          s = emit (Payload assembledPayload) s
      in if isCompressed s
         then (case bunzip c assembledPayload of
                 None \<Rightarrow>
                   if \<not> orangeBox s then Thrown DecompressError s
                   else reload h (demote OrangeBox s) None
               | Some assembledPayload \<Rightarrow>
                   let actualChecksum = crc32_buf c assembledPayload
                   in if actualChecksum \<noteq> crc32CheckSum s
                      then Thrown (ChecksumMismatch (crc32CheckSum s) actualChecksum) s
                      else dispatch s assembledPayload)
         else dispatch s assembledPayload)"

text \<open>\<open>packets[packetNumber] = message\<close> and the test for completeness.\<close>

definition store ::
  "config \<Rightarrow> (state \<Rightarrow> buffer \<Rightarrow> outcome) \<Rightarrow> state \<Rightarrow> buffer \<Rightarrow> nat \<Rightarrow> nat \<Rightarrow> outcome" where
  "store c h s message totalPackets packetNumber =
     (let s = s\<lparr>packets := put packetNumber message (packets s)\<rparr>
      in if length (packets s) = totalPackets then complete c h s else Done s)"

text \<open>A read inside the handler: its exception leaves the handler.\<close>

definition orThrow :: "state \<Rightarrow> error + 'a \<Rightarrow> ('a \<Rightarrow> outcome) \<Rightarrow> outcome" where
  "orThrow s x k = (case x of Inl e \<Rightarrow> Thrown e s | Inr v \<Rightarrow> k v)"

text \<open>The multi-packet branch of \<open>onMessage\<close>; \<open>reader\<close> stands after the leading marker.\<close>

definition multiPacket ::
  "config \<Rightarrow> (state \<Rightarrow> buffer \<Rightarrow> outcome) \<Rightarrow> state \<Rightarrow> buffer \<Rightarrow> reader \<Rightarrow> outcome" where
  "multiPacket c h s message reader =
     orThrow s (readInt32 reader) (\<lambda>(id, reader).
     let s = s\<lparr>isCompressed := (id AND 0x80000000 \<noteq> 0)\<rparr>
     in if \<not> goldSource s \<and> subarray message 9 (9 + 4) = firstPacketPayloadHeader
        then reload h (demote GoldSource s) (Some message)
        else if goldSource s
        then orThrow s (readUint8 reader) (\<lambda>(packetByte, reader).
             let packetNumber = drop_bit 4 packetByte AND 0x0F;
                 totalPackets = packetByte AND 0x0F
             in store c h s message totalPackets packetNumber)
        else orThrow s (readUint8 reader) (\<lambda>(totalPackets, reader).
             orThrow s (readUint8 reader) (\<lambda>(packetNumber, reader).
             let start = (if isCompressed s then 18 else 10)
             in if orangeBox s \<and> packetNumber = 0
                   \<and> subarray message start (start + 4) = firstPacketPayloadHeader
                then reload h (demote OrangeBox s) (Some message)
                else orThrow s (if orangeBox s then readUint16 reader else Inr (0, reader))
                     (\<lambda>(_, reader).
                     if packetNumber = 0 \<and> isCompressed s
                     then orThrow s (readUint32 reader) (\<lambda>(_, reader).
                          orThrow s (readInt32 reader) (\<lambda>(checksum, reader).
                          store c h (s\<lparr>crc32CheckSum := checksum\<rparr>) message
                                totalPackets packetNumber))
                     else store c h s message totalPackets packetNumber))))"

text \<open>
  \<open>onMessage\<close>, with the handler \<open>h\<close> that \<open>reload\<close> calls for the nested invocations.
\<close>

definition onMessageBody ::
  "config \<Rightarrow> (state \<Rightarrow> buffer \<Rightarrow> outcome) \<Rightarrow> state \<Rightarrow> buffer \<Rightarrow> outcome" where
  "onMessageBody c h s message =
     (let s = emit (Recv message) s
      in orThrow s (readInt32 \<lparr>buffer = message, offset = 0\<rparr>) (\<lambda>(hdr, reader).
         if index (subarray message 4 5) 0 = Some A2S_CHALLENGE_RESPONSE_HEADER
         then (let challenge = subarray message 5 9
               in if retryCount s < maxRetries
                  then Done (sendRequest c (Some challenge) (s\<lparr>retryCount := retryCount s + 1\<rparr>))
                  else Done (emit Close (emit (Reject MaxRetriesReached) s)))
         else if hdr = A2S_SINGLE_PACKET_HEADER
         then dispatch s message
         else if hdr = A2S_MULTI_PACKET_HEADER
         then multiPacket c h s message reader
         else Done (emit Close (emit (Reject InvalidResponseHeader) s))))"

text \<open>
  \<open>onMessage\<close> calls itself through \<open>reload\<close>.  The recursion is unfolded to a depth
  \<open>n\<close>; a call that would need more gives \<open>OutOfFuel\<close>.  \<open>reload\<close> is entered only right
  after one of the two dialect flags has been demoted, so depth 3 is never exceeded
  (lemma \<open>onMessage_fuel\<close> below).
\<close>

primrec onMessageN :: "nat \<Rightarrow> config \<Rightarrow> state \<Rightarrow> buffer \<Rightarrow> outcome" where
  "onMessageN 0 c s message = OutOfFuel"
| "onMessageN (Suc n) c s message = onMessageBody c (onMessageN n c) s message"

definition onMessage :: "config \<Rightarrow> state \<Rightarrow> buffer \<Rightarrow> outcome" where
  "onMessage c = onMessageN 3 c"

text \<open>The timer and the socket's error event.\<close>

definition onTimeout :: "state \<Rightarrow> state" where
  "onTimeout s = emit Close (emit (Reject RequestTimedOut) s)"

definition onError :: "state \<Rightarrow> state" where
  "onError s = emit Close (emit (Reject SocketError) s)"

text \<open>\<open>get\<close>: the variables as initialised, and the first request, sent without a challenge.\<close>

definition init :: state where
  "init = \<lparr>retryCount = 0, packets = [], isCompressed = False, crc32CheckSum = 0,
           goldSource = False, orangeBox = True, events = []\<rparr>"

definition get :: "config \<Rightarrow> state" where
  "get c = sendRequest c None init"

text \<open>
  The datagrams that arrive, handled one after the other.  A closed socket delivers no
  further datagram, and an exception that leaves \<open>onMessage\<close> is caught by nobody: the
  run ends there.
\<close>

fun deliver :: "config \<Rightarrow> state \<Rightarrow> buffer list \<Rightarrow> outcome" where
  "deliver c s [] = Done s"
| "deliver c s (message # rest) =
     (if Close \<in> set (events s) then Done s
      else case onMessage c s message of
             Done s' \<Rightarrow> deliver c s' rest
           | Thrown e s' \<Rightarrow> Thrown e s'
           | OutOfFuel \<Rightarrow> OutOfFuel)"

section \<open>Auxiliary notions for the properties\<close>

text \<open>The octets that a reader has not consumed yet.\<close>

definition remaining :: "reader \<Rightarrow> buffer" where
  "remaining r = drop (offset r) (buffer r)"

text \<open>The octets of an ASCII text, for writing payloads down.\<close>

definition bytes :: "string \<Rightarrow> buffer" where
  "bytes s = map of_char s"

text \<open>
  A relation between the variables before and after a step holds across a whole handler
  invocation when it is reflexive and transitive and holds across each elementary step:
  a trace line or settlement other than a dialect detection, an assignment to one of
  \<open>retryCount\<close>, \<open>packets\<close>, \<open>isCompressed\<close>, \<open>crc32CheckSum\<close>, and the demotion of a flag
  that is still in its initial position together with the entry into \<open>reload\<close> that
  follows it.
\<close>

definition step_closed :: "(state \<Rightarrow> state \<Rightarrow> bool) \<Rightarrow> bool" where
  "step_closed R \<longleftrightarrow>
     (\<forall>s. R s s) \<and> (\<forall>a b c. R a b \<longrightarrow> R b c \<longrightarrow> R a c)
     \<and> (\<forall>s e. (\<forall>f. e \<noteq> Detected f) \<and> e \<noteq> Reload \<longrightarrow> R s (emit e s))
     \<and> (\<forall>s n. R s (s\<lparr>retryCount := n\<rparr>))
     \<and> (\<forall>s p. R s (s\<lparr>packets := p\<rparr>))
     \<and> (\<forall>s b. R s (s\<lparr>isCompressed := b\<rparr>))
     \<and> (\<forall>s w. R s (s\<lparr>crc32CheckSum := w\<rparr>))
     \<and> (\<forall>s. \<not> goldSource s \<longrightarrow> R s (emit Reload (demote GoldSource s)))
     \<and> (\<forall>s. orangeBox s \<longrightarrow> R s (emit Reload (demote OrangeBox s)))"

definition keeps :: "(state \<Rightarrow> state \<Rightarrow> bool) \<Rightarrow> (state \<Rightarrow> buffer \<Rightarrow> outcome) \<Rightarrow> bool" where
  "keeps R h \<longleftrightarrow> (\<forall>s m s'. final (h s m) = Some s' \<longrightarrow> R s s')"

text \<open>The number of dialect flags that can still be demoted.\<close>

definition pot :: "state \<Rightarrow> nat" where
  "pot s = (if goldSource s then 0 else 1) + (if orangeBox s then 1 else 0)"

text \<open>Flags only move towards the legacy side and the record of events only grows.\<close>

definition advances :: "state \<Rightarrow> state \<Rightarrow> bool" where
  "advances s s' \<longleftrightarrow>
     (goldSource s \<longrightarrow> goldSource s') \<and> (orangeBox s' \<longrightarrow> orangeBox s)
     \<and> (\<exists>es. events s' = events s @ es)"

definition fuelled :: "nat \<Rightarrow> (state \<Rightarrow> buffer \<Rightarrow> outcome) \<Rightarrow> bool" where
  "fuelled k h \<longleftrightarrow> keeps advances h \<and> (\<forall>s m. pot s < k \<longrightarrow> h s m \<noteq> OutOfFuel)"

text \<open>
  Stand-ins for the two library functions, for running the engine on concrete datagrams:
  an archive is the four octets "BZh9" followed by the stored content, and the checksum
  is the sum of the octets.
\<close>

definition testLib :: config where
  "testLib = \<lparr>header = 0x56,
              bunzip = (\<lambda>b. if take 3 b = [0x42, 0x5A, 0x68] then Some (drop 4 b) else None),
              crc32_buf = (\<lambda>b. of_nat (sum_list (map unat b)))\<rparr>"

text \<open>
  A GoldSource rules response \<open>{sa: 1, sb: 2}\<close> in three fragments (response id 1; the
  ninth octet packs the fragment number and the total).
\<close>

definition gs0 :: buffer where
  "gs0 = [0xFE, 0xFF, 0xFF, 0xFF, 1, 0, 0, 0, 0x03, 0xFF, 0xFF, 0xFF, 0xFF, 0x45, 2, 0]"

definition gs1 :: buffer where
  "gs1 = [0xFE, 0xFF, 0xFF, 0xFF, 1, 0, 0, 0, 0x13, 0x73, 0x61, 0, 0x31, 0]"

definition gs2 :: buffer where
  "gs2 = [0xFE, 0xFF, 0xFF, 0xFF, 1, 0, 0, 0, 0x23, 0x73, 0x62, 0, 0x32, 0]"

text \<open>
  A compressed rules response \<open>{s: v}\<close> in two fragments with the current framing
  (size field \<open>0x04E0\<close>), whose checksum field says 1324 where the content sums to 1323.
\<close>

definition bz0 :: buffer where
  "bz0 = [0xFE, 0xFF, 0xFF, 0xFF, 1, 0, 0, 0x80, 2, 0, 0xE0, 0x04, 0x0B, 0, 0, 0,
          0x2C, 0x05, 0, 0, 0x42, 0x5A, 0x68, 0x39, 0xFF, 0xFF, 0xFF]"

definition bz1 :: buffer where
  "bz1 = [0xFE, 0xFF, 0xFF, 0xFF, 1, 0, 0, 0x80, 2, 1, 0xE0, 0x04,
          0xFF, 0x45, 1, 0, 0x73, 0, 0x76, 0]"

text \<open>
  The first fragment of an uncompressed response in the current framing: response id
  65 (\<open>0x41\<close>), two fragments, size field \<open>0x04E0\<close>, then the start of a rules payload.
\<close>

definition id65 :: buffer where
  "id65 = [0xFE, 0xFF, 0xFF, 0xFF, 0x41, 0, 0, 0, 2, 0, 0xE0, 0x04,
           0xFF, 0xFF, 0xFF, 0xFF, 0x45, 1, 0, 0x73]"

text \<open>
  In a record of events, every dialect detection is directly followed by the entry
  into \<open>reload\<close>.
\<close>

fun reloaded :: "event list \<Rightarrow> bool" where
  "reloaded [] = True"
| "reloaded (Detected f # es) = (case es of Reload # _ \<Rightarrow> reloaded es | _ \<Rightarrow> False)"
| "reloaded (e # es) = reloaded es"

text \<open>
  What relates the variables at two moments of one call, the second later: a flag that
  was demoted is still demoted; the events recorded in between contain one detection of
  a dialect exactly when its flag was demoted in between, and none otherwise; and each
  detection is directly followed by the entry into \<open>reload\<close>.
\<close>

definition dialect_step :: "state \<Rightarrow> state \<Rightarrow> bool" where
  "dialect_step s s' \<longleftrightarrow>
     (goldSource s \<longrightarrow> goldSource s') \<and> (orangeBox s' \<longrightarrow> orangeBox s)
     \<and> (\<exists>es. events s' = events s @ es
            \<and> count_list es (Detected GoldSource)
                = (if goldSource s' \<and> \<not> goldSource s then 1 else 0)
            \<and> count_list es (Detected OrangeBox)
                = (if orangeBox s \<and> \<not> orangeBox s' then 1 else 0)
            \<and> reloaded es)"

text \<open>
  A datagram that \<open>onMessage\<close> takes into its multi-packet branch: it begins with the
  marker \<open>0xFFFFFFFE\<close> and its fifth octet is not the challenge discriminator.
\<close>

definition multi :: "buffer \<Rightarrow> bool" where
  "multi m \<longleftrightarrow> take 4 m = [0xFE, 0xFF, 0xFF, 0xFF] \<and> index m 4 \<noteq> Some 0x41"

text \<open>
  What the multi-packet branch reads from the header of a datagram under given values of
  the two dialect flags, apart from what it then does with it: a read fails (with the
  compressed flag already assigned or not), the datagram contradicts a flag, or the
  header gives the compressed flag, \<open>totalPackets\<close>, \<open>packetNumber\<close> and the checksum when
  it is read.  Lemma \<open>multiPacket_fields\<close> states that \<open>multiPacket\<close> acts on exactly this.
\<close>

datatype fields =
    Unreadable error "bool option"
  | Contradicts flag bool
  | Fields bool nat nat "32 word option"

definition multiHeader :: "bool \<Rightarrow> bool \<Rightarrow> buffer \<Rightarrow> fields" where
  "multiHeader gold orange message =
     (case readInt32 \<lparr>buffer = message, offset = 4\<rparr> of
        Inl e \<Rightarrow> Unreadable e None
      | Inr (ident, reader) \<Rightarrow>
          let compressed = (ident AND 0x80000000 \<noteq> 0)
          in if \<not> gold \<and> subarray message 9 (9 + 4) = firstPacketPayloadHeader
             then Contradicts GoldSource compressed
             else if gold
             then (case readUint8 reader of
                     Inl e \<Rightarrow> Unreadable e (Some compressed)
                   | Inr (packetByte, reader) \<Rightarrow>
                       Fields compressed (packetByte AND 0x0F) (drop_bit 4 packetByte AND 0x0F) None)
             else (case readUint8 reader of
                     Inl e \<Rightarrow> Unreadable e (Some compressed)
                   | Inr (totalPackets, reader) \<Rightarrow>
                  (case readUint8 reader of
                     Inl e \<Rightarrow> Unreadable e (Some compressed)
                   | Inr (packetNumber, reader) \<Rightarrow>
                       let start = (if compressed then 18 else 10)
                       in if orange \<and> packetNumber = 0
                             \<and> subarray message start (start + 4) = firstPacketPayloadHeader
                          then Contradicts OrangeBox compressed
                          else (case (if orange then readUint16 reader else Inr (0, reader)) of
                                  Inl e \<Rightarrow> Unreadable e (Some compressed)
                                | Inr (_, reader) \<Rightarrow>
                                    if packetNumber = 0 \<and> compressed
                                    then (case readUint32 reader of
                                            Inl e \<Rightarrow> Unreadable e (Some compressed)
                                          | Inr (_, reader) \<Rightarrow>
                                         (case readInt32 reader of
                                            Inl e \<Rightarrow> Unreadable e (Some compressed)
                                          | Inr (checksum, reader) \<Rightarrow>
                                              Fields compressed totalPackets packetNumber
                                                (Some checksum)))
                                    else Fields compressed totalPackets packetNumber None))))"

text \<open>The assignments of the multi-packet branch before it stores the datagram.\<close>

definition framed :: "state \<Rightarrow> bool \<Rightarrow> 32 word option \<Rightarrow> state" where
  "framed s compressed checksum =
     (case checksum of
        None \<Rightarrow> s\<lparr>isCompressed := compressed\<rparr>
      | Some w \<Rightarrow> s\<lparr>isCompressed := compressed, crc32CheckSum := w\<rparr>)"

text \<open>
  The octets that reassembly concatenates from the fragments \<open>fs\<close>, buffered under their
  positions, for given values of the flags.
\<close>

definition wire :: "bool \<Rightarrow> bool \<Rightarrow> bool \<Rightarrow> buffer list \<Rightarrow> buffer" where
  "wire gold orange compressed fs =
     assemble (init\<lparr>packets := zip [0..<length fs] fs, isCompressed := compressed,
                    goldSource := gold, orangeBox := orange\<rparr>)"

text \<open>
  Two datagrams in the current framing that disagree about the total: the first declares
  fragment 0 of 3, the second fragment 1 of 1.
\<close>

definition tot3 :: buffer where
  "tot3 = [0xFE, 0xFF, 0xFF, 0xFF, 1, 0, 0, 0, 3, 0, 0xE0, 0x04,
           0xFF, 0xFF, 0xFF, 0xFF, 0x45, 2, 0]"

definition tot1 :: buffer where
  "tot1 = [0xFE, 0xFF, 0xFF, 0xFF, 1, 0, 0, 0, 1, 1, 0xE0, 0x04, 0x73, 0x61, 0, 0x31, 0]"

text \<open>An uncompressed rules response \<open>{s: v}\<close> in two fragments with the current framing.\<close>

definition un0 :: buffer where
  "un0 = [0xFE, 0xFF, 0xFF, 0xFF, 1, 0, 0, 0, 2, 0, 0xE0, 0x04,
          0xFF, 0xFF, 0xFF, 0xFF, 0x45, 1, 0]"

definition un1 :: buffer where
  "un1 = [0xFE, 0xFF, 0xFF, 0xFF, 1, 0, 0, 0, 2, 1, 0xE0, 0x04, 0x73, 0, 0x76, 0]"

text \<open>
  The compressed rules response \<open>{s: v}\<close> in two fragments in the framing without the size
  field, with the right checksum 1323.
\<close>

definition lb0 :: buffer where
  "lb0 = [0xFE, 0xFF, 0xFF, 0xFF, 1, 0, 0, 0x80, 2, 0, 0x0B, 0, 0, 0, 0x2B, 0x05, 0, 0,
          0x42, 0x5A, 0x68, 0x39, 0xFF, 0xFF, 0xFF]"

definition lb1 :: buffer where
  "lb1 = [0xFE, 0xFF, 0xFF, 0xFF, 1, 0, 0, 0x80, 2, 1, 0xFF, 0x45, 1, 0, 0x73, 0, 0x76, 0]"

text \<open>
  The first fragment \<open>bz0\<close> with the checksum field set to 1640, which is the checksum of the
  octets of the archive as they are sent (\<open>cw0\<close> and \<open>bz1\<close> carry "BZh9" and the content);
  the content itself sums to 1323.
\<close>

definition cw0 :: buffer where
  "cw0 = [0xFE, 0xFF, 0xFF, 0xFF, 1, 0, 0, 0x80, 2, 0, 0xE0, 0x04, 0x0B, 0, 0, 0,
          0x68, 0x06, 0, 0, 0x42, 0x5A, 0x68, 0x39, 0xFF, 0xFF, 0xFF]"

text \<open>
  Three datagrams of one call.  The first two are read, with the current framing, as
  fragment 7 of 17 and fragment 8 of 34; the third has the payload header at octet 9
  and so shows the GoldSource framing, in which the first reads as fragment 1 of 1.
\<close>

definition early7 :: buffer where
  "early7 = [0xFE, 0xFF, 0xFF, 0xFF, 1, 0, 0, 0, 0x11, 7, 0, 0, 0, 0, 0, 0]"

definition early8 :: buffer where
  "early8 = [0xFE, 0xFF, 0xFF, 0xFF, 1, 0, 0, 0, 0x22, 8, 0, 0, 0, 0x45, 0, 0]"

definition gold3 :: buffer where
  "gold3 = [0xFE, 0xFF, 0xFF, 0xFF, 1, 0, 0, 0, 0x03, 0xFF, 0xFF, 0xFF, 0xFF, 0x45, 0, 0]"

text \<open>
  What the caller of \<open>get\<close> sees: the promise is settled by the first call of \<open>resolve\<close> or
  \<open>reject\<close>, and is pending as long as there was none.
\<close>

fun settles :: "event \<Rightarrow> bool" where
  "settles (Resolve d) = True"
| "settles (Reject e) = True"
| "settles _ = False"

definition settlement :: "event list \<Rightarrow> event option" where
  "settlement es = find settles es"

section \<open>Properties of the reader\<close>

lemma scan_takeWhile:
  "scan buf off = off + length (takeWhile (\<lambda>b. b \<noteq> 0) (drop off buf))"
proof (induction buf off rule: scan.induct)
  case (1 buf off)
  show ?case
  proof (cases "off < length buf")
    case True
    then have d: "drop off buf = buf ! off # drop (Suc off) buf"
      by (simp add: Cons_nth_drop_Suc)
    show ?thesis
    proof (cases "buf ! off = 0")
      case True
      with \<open>off < length buf\<close> d show ?thesis
        by (subst scan.simps) (simp add: index_def)
    next
      case False
      with \<open>off < length buf\<close> d 1 show ?thesis
        by (subst scan.simps) (simp add: index_def)
    qed
  next
    case False
    then show ?thesis
      by (subst scan.simps) simp
  qed
qed

lemma readString_remaining:
  "readString r =
     (utf8_decode (takeWhile (\<lambda>b. b \<noteq> 0) (remaining r)),
      skip (length (takeWhile (\<lambda>b. b \<noteq> 0) (remaining r)) + 1) r)"
proof -
  let ?tw = "takeWhile (\<lambda>b. b \<noteq> 0) (drop (offset r) (buffer r))"
  have "take (length ?tw) (drop (offset r) (buffer r)) = ?tw"
    by (metis takeWhile_eq_take)
  then show ?thesis
    by (simp add: readString_def toString_def subarray_def scan_takeWhile remaining_def
        skip_def Let_def)
qed

lemma remaining_skip: "remaining (skip n r) = drop n (remaining r)"
  by (simp add: remaining_def skip_def add.commute)

lemma remaining_update [simp]: "remaining (r\<lparr>offset := n\<rparr>) = drop n (buffer r)"
  by (simp add: remaining_def)

lemma remaining_mk [simp]: "remaining \<lparr>buffer = buf, offset = n\<rparr> = drop n buf"
  by (simp add: remaining_def)

lemma rbind_readUint8:
  "rbind readUint8 f r =
     (case remaining r of [] \<Rightarrow> Inl RangeError | b # t \<Rightarrow> f (unat b) (skip 1 r))"
proof (cases "offset r < length (buffer r)")
  case True
  then have "drop (offset r) (buffer r) = buffer r ! offset r # drop (Suc (offset r)) (buffer r)"
    by (simp add: Cons_nth_drop_Suc)
  with True show ?thesis
    by (simp add: rbind_def readUint8_def remaining_def skip_def)
next
  case False
  then show ?thesis
    by (simp add: rbind_def readUint8_def remaining_def)
qed

lemma rbind_readUint16:
  "rbind readUint16 f r =
     (case remaining r of b0 # b1 # t \<Rightarrow> f (le16 b0 b1) (skip 2 r) | _ \<Rightarrow> Inl RangeError)"
proof (cases "offset r + 2 \<le> length (buffer r)")
  case True
  then have "drop (offset r) (buffer r) =
      buffer r ! offset r # buffer r ! (offset r + 1) # drop (offset r + 2) (buffer r)"
    by (simp add: Cons_nth_drop_Suc [symmetric])
  with True show ?thesis
    by (simp add: rbind_def readUint16_def remaining_def skip_def)
next
  case False
  then have "length (remaining r) < 2"
    by (simp add: remaining_def)
  then have "(case remaining r of b0 # b1 # t \<Rightarrow> f (le16 b0 b1) (skip 2 r)
               | _ \<Rightarrow> Inl RangeError) = Inl RangeError"
    by (auto split: list.splits)
  with False show ?thesis
    by (simp add: rbind_def readUint16_def)
qed

lemma rbind_str:
  "rbind str f r =
     f (utf8_decode (takeWhile (\<lambda>b. b \<noteq> 0) (remaining r)))
       (skip (length (takeWhile (\<lambda>b. b \<noteq> 0) (remaining r)) + 1) r)"
  by (simp add: rbind_def str_def readString_remaining)

lemma rbind_rreturn: "rbind (rreturn a) f r = f a r"
  by (simp add: rbind_def rreturn_def)

lemma takeWhile_cstr:
  "0 \<notin> set s \<Longrightarrow> takeWhile (\<lambda>b. b \<noteq> 0) (s @ (0::byte) # t) = s"
  by (induction s) auto

lemma drop_cstr: "drop (Suc (length s)) (s @ b # t) = t"
  by (induction s) auto

text \<open>
  C10.  When no zero octet lies between the cursor and the end of the buffer,
  \<open>readString\<close> returns the string decoded from all the remaining octets and leaves the
  cursor one past the end of the buffer (or one past where it was, if it already was
  beyond the end).  It has no error result at all, so inside a decoder a string whose
  terminator was cut off is read as a shorter string and the read is not a failure.
\<close>

theorem readString_unterminated:
  assumes "0 \<notin> set (drop (offset r) (buffer r))"
  shows "readString r =
           (utf8_decode (drop (offset r) (buffer r)),
            r\<lparr>offset := max (offset r) (length (buffer r)) + 1\<rparr>)
         \<and> length (buffer r) < offset (snd (readString r))
         \<and> str r = Inr (utf8_decode (drop (offset r) (buffer r)),
                         r\<lparr>offset := max (offset r) (length (buffer r)) + 1\<rparr>)"
proof -
  have "\<forall>b \<in> set (remaining r). b \<noteq> 0"
    using assms by (auto simp: remaining_def)
  then have tw: "takeWhile (\<lambda>b. b \<noteq> 0) (remaining r) = remaining r"
    by (simp add: takeWhile_eq_all_conv)
  have len: "offset r + length (remaining r) = max (offset r) (length (buffer r))"
    by (simp add: remaining_def)
  have eq: "readString r =
           (utf8_decode (drop (offset r) (buffer r)),
            r\<lparr>offset := max (offset r) (length (buffer r)) + 1\<rparr>)"
    using len by (simp add: readString_remaining tw skip_def) (simp add: remaining_def)
  then show ?thesis
    by (simp add: str_def)
qed

theorem readString_unterminated_witness:
  "0 \<notin> set (drop (offset \<lparr>buffer = [0x45, 0x73, 0xC3, 0xA9], offset = 1\<rparr>)
                  (buffer \<lparr>buffer = [0x45, 0x73, 0xC3, 0xA9], offset = 1\<rparr>))
   \<and> readString \<lparr>buffer = [0x45, 0x73, 0xC3, 0xA9], offset = 1\<rparr>
       = ([0x73, 0xE9], \<lparr>buffer = [0x45, 0x73, 0xC3, 0xA9], offset = 5\<rparr>)
   \<and> str \<lparr>buffer = [0x45, 0x73, 0xC3, 0xA9], offset = 1\<rparr>
       = Inr ([0x73, 0xE9], \<lparr>buffer = [0x45, 0x73, 0xC3, 0xA9], offset = 5\<rparr>)"
proof -
  have h: "0 \<notin> set (drop (offset \<lparr>buffer = [0x45, 0x73, 0xC3, 0xA9 :: byte], offset = 1\<rparr>)
                  (buffer \<lparr>buffer = [0x45, 0x73, 0xC3, 0xA9], offset = 1\<rparr>))"
    by simp
  have c: "utf8_decode [0x73, 0xC3, 0xA9] = [0x73, 0xE9]"
    by code_simp
  show ?thesis
    using h readString_unterminated [OF h] by (simp add: c)
qed

section \<open>The info decoder on the scenario of the specification\<close>

text \<open>
  C9.  A single-packet payload with discriminator \<open>0x49\<close> that carries a protocol octet,
  the name "Test Server", the map "de_dust2", any folder and game text, any application
  id, 5 players, 10 maximum players, 0 bots, type \<open>d\<close>, environment \<open>l\<close>, any visibility
  and anti-cheat octets and any version text, and nothing after the version, decodes to
  the record with exactly these fields, read in that order, the folder, game and version
  being what the octets decode to; so its name is "Test Server", its players 5 and its
  maxPlayers 10.
\<close>

theorem info_scenario:
  assumes "0 \<notin> set fo" "0 \<notin> set ga" "0 \<notin> set ve"
  shows "parseResponse ([0xFF, 0xFF, 0xFF, 0xFF, 0x49, p] @ bytes ''Test Server'' @ [0]
            @ bytes ''de_dust2'' @ [0] @ fo @ [0] @ ga @ [0]
            @ [id0, id1, 5, 10, 0, 0x64, 0x6C, vi, va] @ ve @ [0])
         = Inr (Info \<lparr>protocol = unat p, name = ascii ''Test Server'', map_name = ascii ''de_dust2'',
                  folder = utf8_decode fo, game = utf8_decode ga, players = 5, maxPlayers = 10,
                  bots = 0, serverType = ascii ''d'', environment = ascii ''l'', visibility = unat vi,
                  vac = unat va, app_id = Some (le16 id0 id1), version = Some (utf8_decode ve),
                  extra = None, address = None, mod_info = None\<rparr>)"
proof -
  let ?payload = "[0xFF, 0xFF, 0xFF, 0xFF, 0x49, p] @ bytes ''Test Server'' @ [0]
            @ bytes ''de_dust2'' @ [0] @ fo @ [0] @ ga @ [0]
            @ [id0, id1, 5, 10, 0, 0x64, 0x6C, vi, va] @ ve @ [0]"
  let ?r = "\<lparr>buffer = ?payload, offset = 5\<rparr>"
  have fields: "parseInfoFields ?r =
      Inr (\<lparr>protocol = unat p, name = ascii ''Test Server'', map_name = ascii ''de_dust2'',
                  folder = utf8_decode fo, game = utf8_decode ga, players = 5, maxPlayers = 10,
                  bots = 0, serverType = ascii ''d'', environment = ascii ''l'', visibility = unat vi,
                  vac = unat va, app_id = Some (le16 id0 id1), version = Some (utf8_decode ve),
                  extra = None, address = None, mod_info = None\<rparr>,
           \<lparr>buffer = ?payload, offset = length ?payload\<rparr>)"
  proof -
    have nz: "0 \<notin> set (bytes ''Test Server'')" "0 \<notin> set (bytes ''de_dust2'')"
      by code_simp+
    have ch: "fromCharCode 100 = ascii ''d''" "fromCharCode 108 = ascii ''l''"
      "utf8_decode (bytes ''Test Server'') = ascii ''Test Server''"
      "utf8_decode (bytes ''de_dust2'') = ascii ''de_dust2''"
      by code_simp+
    have len: "length (bytes ''Test Server'') = 11" "length (bytes ''de_dust2'') = 8"
      by (simp_all add: bytes_def)
    show ?thesis
      using assms nz
      apply (simp add: parseInfoFields_def rbind_readUint8 rbind_readUint16 rbind_str
          rbind_rreturn remaining_skip takeWhile_cstr drop_cstr rreturn_def ch)
      apply (simp add: skip_def len)
      done
  qed
  show ?thesis
    apply (simp add: parseResponse_def readInt8_def parseInfoResponse_def)
    apply (simp add: fields[simplified] getOffset_def byteLength_def)
    done
qed

theorem info_scenario_witness:
  "0 \<notin> set (bytes ''cstrike'') \<and> 0 \<notin> set (bytes ''Counter-Strike'')
   \<and> 0 \<notin> set (bytes ''1.0.0.0'')
   \<and> parseResponse ([0xFF, 0xFF, 0xFF, 0xFF, 0x49, 0x11] @ bytes ''Test Server'' @ [0]
            @ bytes ''de_dust2'' @ [0] @ bytes ''cstrike'' @ [0] @ bytes ''Counter-Strike'' @ [0]
            @ [0x0A, 0x00, 5, 10, 0, 0x64, 0x6C, 0, 1] @ bytes ''1.0.0.0'' @ [0])
       = Inr (Info \<lparr>protocol = 17, name = ascii ''Test Server'', map_name = ascii ''de_dust2'',
                  folder = ascii ''cstrike'', game = ascii ''Counter-Strike'', players = 5, maxPlayers = 10,
                  bots = 0, serverType = ascii ''d'', environment = ascii ''l'', visibility = 0,
                  vac = 1, app_id = Some 10, version = Some (ascii ''1.0.0.0''),
                  extra = None, address = None, mod_info = None\<rparr>)"
proof -
  have nz: "0 \<notin> set (bytes ''cstrike'')" "0 \<notin> set (bytes ''Counter-Strike'')"
    "0 \<notin> set (bytes ''1.0.0.0'')"
    by code_simp+
  have dec: "utf8_decode (bytes ''cstrike'') = ascii ''cstrike''"
    "utf8_decode (bytes ''Counter-Strike'') = ascii ''Counter-Strike''"
    "utf8_decode (bytes ''1.0.0.0'') = ascii ''1.0.0.0''"
    by code_simp+
  show ?thesis
    using nz info_scenario [OF nz, of "0x11" "0x0A" "0x00" 0 1]
    by (simp add: dec le16_def)
qed

section \<open>Invariants of the handler\<close>

lemma step_closedD:
  assumes "step_closed R"
  shows "R s s" and "R s1 s2 \<Longrightarrow> R s2 s3 \<Longrightarrow> R s1 s3"
    and "(\<And>f. e \<noteq> Detected f) \<Longrightarrow> e \<noteq> Reload \<Longrightarrow> R s (emit e s)"
    and "R s (s\<lparr>retryCount := n\<rparr>)" and "R s (s\<lparr>packets := p\<rparr>)"
    and "R s (s\<lparr>isCompressed := b\<rparr>)" and "R s (s\<lparr>crc32CheckSum := w\<rparr>)"
    and "\<not> goldSource s \<Longrightarrow> R s (emit Reload (demote GoldSource s))"
    and "orangeBox s \<Longrightarrow> R s (emit Reload (demote OrangeBox s))"
  using assms unfolding step_closed_def by blast+

lemma keepsD: "keeps R h \<Longrightarrow> final (h s m) = Some s' \<Longrightarrow> R s s'"
  by (simp add: keeps_def)

lemma final_orThrow:
  "final (orThrow s x k) = Some s' \<longleftrightarrow>
     (case x of Inl e \<Rightarrow> s' = s | Inr v \<Rightarrow> final (k v) = Some s')"
  by (auto simp: orThrow_def split: sum.splits)

lemma dispatch_rel:
  assumes R: "step_closed R" and f: "final (dispatch s payload) = Some s'"
  shows "R s s'"
proof (cases "parseResponse payload")
  case (Inl e)
  with f have "s' = s" by (simp add: dispatch_def)
  then show ?thesis by (simp add: step_closedD(1)[OF R])
next
  case (Inr d)
  have r: "R s (emit (Resolve d) s)" by (rule step_closedD(3)[OF R]) simp_all
  show ?thesis
  proof (cases "Close \<in> set (events (emit (Resolve d) s))")
    case True
    with f Inr have "s' = emit (Resolve d) s" by (simp add: dispatch_def closeSocket_def)
    with r show ?thesis by simp
  next
    case False
    with f Inr have s': "s' = emit Close (emit (Resolve d) s)"
      by (simp add: dispatch_def closeSocket_def)
    have "R (emit (Resolve d) s) s'" unfolding s' by (rule step_closedD(3)[OF R]) simp_all
    with r show ?thesis by (rule step_closedD(2)[OF R])
  qed
qed

lemma reloadLoop_rel:
  assumes R: "step_closed R" and h: "keeps R h"
  shows "final (reloadLoop h s entries) = Some s' \<Longrightarrow> R s s'"
proof (induction entries arbitrary: s)
  case Nil
  then show ?case by (simp add: step_closedD(1)[OF R])
next
  case (Cons m entries)
  show ?case
  proof (cases "h s m")
    case (Done s1)
    then have "R s s1" using keepsD[OF h, of s m s1] by simp
    moreover from Cons Done have "R s1 s'" by simp
    ultimately show ?thesis by (rule step_closedD(2)[OF R])
  next
    case (Thrown e s1)
    with Cons.prems have "s' = s1" by simp
    with Thrown show ?thesis using keepsD[OF h, of s m s1] by simp
  next
    case OutOfFuel
    with Cons.prems show ?thesis by simp
  qed
qed

lemma reload_rel:
  assumes R: "step_closed R" and h: "keeps R h"
    and f: "final (reload h s message) = Some s'"
  shows "R (emit Reload s) s'"
proof -
  let ?s1 = "(emit Reload s)\<lparr>packets := []\<rparr>"
  obtain entries where "reload h s message = reloadLoop h ?s1 entries"
    by (simp add: reload_def Let_def)
  with f have "R ?s1 s'" using reloadLoop_rel[OF R h] by simp
  moreover have "R (emit Reload s) ?s1" by (rule step_closedD(5)[OF R])
  ultimately show ?thesis using step_closedD(2)[OF R] by blast
qed

lemma complete_rel:
  assumes R: "step_closed R" and h: "keeps R h"
    and f: "final (complete c h s) = Some s'"
  shows "R s s'"
proof -
  let ?s1 = "emit (Payload (assemble s)) s"
  have 1: "R s ?s1" by (rule step_closedD(3)[OF R]) simp_all
  have flags: "isCompressed ?s1 = isCompressed s" "orangeBox ?s1 = orangeBox s"
    "crc32CheckSum ?s1 = crc32CheckSum s"
    by (simp_all add: emit_def)
  have "R ?s1 s'"
  proof (cases "isCompressed s")
    case False
    with f have "final (dispatch ?s1 (assemble s)) = Some s'"
      by (simp add: complete_def Let_def flags)
    then show ?thesis by (rule dispatch_rel[OF R])
  next
    case True
    show ?thesis
    proof (cases "bunzip c (assemble s)")
      case None
      show ?thesis
      proof (cases "orangeBox s")
        case False
        with f True None have "s' = ?s1" by (simp add: complete_def Let_def flags)
        then show ?thesis by (simp add: step_closedD(1)[OF R])
      next
        case ob: True
        with f True None have "final (reload h (demote OrangeBox ?s1) None) = Some s'"
          by (simp add: complete_def Let_def flags)
        then have "R (emit Reload (demote OrangeBox ?s1)) s'" by (rule reload_rel[OF R h])
        moreover have "R ?s1 (emit Reload (demote OrangeBox ?s1))"
          by (rule step_closedD(9)[OF R]) (simp add: flags ob)
        ultimately show ?thesis using step_closedD(2)[OF R] by blast
      qed
    next
      case (Some d)
      show ?thesis
      proof (cases "crc32_buf c d \<noteq> crc32CheckSum s")
        case True
        with f \<open>isCompressed s\<close> Some have "s' = ?s1" by (simp add: complete_def Let_def flags)
        then show ?thesis by (simp add: step_closedD(1)[OF R])
      next
        case False
        with f \<open>isCompressed s\<close> Some have "final (dispatch ?s1 d) = Some s'"
          by (simp add: complete_def Let_def flags)
        then show ?thesis by (rule dispatch_rel[OF R])
      qed
    qed
  qed
  with 1 show ?thesis using step_closedD(2)[OF R] by blast
qed

lemma store_rel:
  assumes R: "step_closed R" and h: "keeps R h"
    and f: "final (store c h s message totalPackets packetNumber) = Some s'"
  shows "R s s'"
proof -
  let ?s1 = "s\<lparr>packets := put packetNumber message (packets s)\<rparr>"
  have 1: "R s ?s1" by (rule step_closedD(5)[OF R])
  have "R ?s1 s'"
  proof (cases "length (packets ?s1) = totalPackets")
    case True
    with f have "final (complete c h ?s1) = Some s'" by (simp add: store_def Let_def)
    then show ?thesis by (rule complete_rel[OF R h])
  next
    case False
    with f have "s' = ?s1" by (simp add: store_def Let_def)
    then show ?thesis by (simp add: step_closedD(1)[OF R])
  qed
  with 1 show ?thesis using step_closedD(2)[OF R] by blast
qed


lemma multiPacket_rel:
  assumes R: "step_closed R" and h: "keeps R h"
    and f: "final (multiPacket c h s message reader) = Some s'"
  shows "R s s'"
proof -
  note tr = step_closedD(2)[OF R]
  have A: "R s (s\<lparr>isCompressed := b\<rparr>)" for b
    by (rule step_closedD(6)[OF R])
  have B: "R s (s\<lparr>isCompressed := b, crc32CheckSum := w\<rparr>)" for b w
    by (rule tr[OF A step_closedD(7)[OF R]])
  have C: "R s (emit Reload (demote GoldSource (s\<lparr>isCompressed := b\<rparr>)))"
    if "\<not> goldSource s" for b
    by (rule tr[OF A step_closedD(8)[OF R]]) (simp add: that)
  have D: "R s (emit Reload (demote OrangeBox (s\<lparr>isCompressed := b\<rparr>)))"
    if "orangeBox s" for b
    by (rule tr[OF A step_closedD(9)[OF R]]) (simp add: that)
  have st: "R s s'" if "R s s1" "final (store c h s1 m t k) = Some s'" for s1 m t k
    using that store_rel[OF R h] tr by blast
  have rl: "R s s'" if "R s (emit Reload s1)" "final (reload h s1 m) = Some s'" for s1 m
    using that reload_rel[OF R h] tr by blast
  show ?thesis
    using f
    apply (simp add: multiPacket_def final_orThrow Let_def split: sum.splits prod.splits if_splits)
    using A B C D st rl step_closedD(1)[OF R] 
           apply blast+
    done
qed


lemma onMessageBody_rel_Recv:
  assumes R: "step_closed R" and h: "keeps R h"
    and f: "final (onMessageBody c h s message) = Some s'"
  shows "R (emit (Recv message) s) s'"
proof -
  note tr = step_closedD(2)[OF R]
  let ?s1 = "emit (Recv message) s"
  have e: "R ?s1 (emit Close (emit (Reject x) ?s1))" for x
    by (rule tr[OF step_closedD(3)[OF R] step_closedD(3)[OF R]]) simp_all
  have sr: "R ?s1 (sendRequest c ch (?s1\<lparr>retryCount := n\<rparr>))" for ch n
    unfolding sendRequest_def
    by (rule tr[OF step_closedD(4)[OF R] step_closedD(3)[OF R]]) simp_all
  show "R ?s1 s'"
    using f dispatch_rel[OF R] multiPacket_rel[OF R h] e sr step_closedD(1)[OF R]
    by (auto simp: onMessageBody_def final_orThrow Let_def split: sum.splits prod.splits if_splits)
qed

lemma onMessageBody_rel:
  assumes R: "step_closed R" and h: "keeps R h"
    and f: "final (onMessageBody c h s message) = Some s'"
  shows "R s s'"
proof -
  have "R s (emit (Recv message) s)" by (rule step_closedD(3)[OF R]) simp_all
  then show ?thesis
    using onMessageBody_rel_Recv[OF R h f] by (rule step_closedD(2)[OF R])
qed

lemma onMessageN_rel:
  assumes R: "step_closed R"
  shows "keeps R (onMessageN n c)"
proof (induction n)
  case 0
  show ?case by (simp add: keeps_def)
next
  case (Suc n)
  show ?case
    unfolding keeps_def using onMessageBody_rel[OF R Suc] by simp
qed

lemma emit_fields [simp]:
  "retryCount (emit e s) = retryCount s" "packets (emit e s) = packets s"
  "isCompressed (emit e s) = isCompressed s" "crc32CheckSum (emit e s) = crc32CheckSum s"
  "goldSource (emit e s) = goldSource s" "orangeBox (emit e s) = orangeBox s"
  "events (emit e s) = events s @ [e]"
  by (simp_all add: emit_def)

lemma demote_fields [simp]:
  "retryCount (demote f s) = retryCount s" "packets (demote f s) = packets s"
  "isCompressed (demote f s) = isCompressed s" "crc32CheckSum (demote f s) = crc32CheckSum s"
  "goldSource (demote f s) = (f = GoldSource \<or> goldSource s)"
  "orangeBox (demote f s) = (f \<noteq> OrangeBox \<and> orangeBox s)"
  "events (demote f s) = events s @ [Detected f]"
  by (cases f; simp add: demote_def)+

lemma step_closed_advances: "step_closed advances"
  unfolding step_closed_def advances_def by auto

lemma onMessageN_advances:
  "final (onMessageN n c s m) = Some s' \<Longrightarrow> advances s s'"
  using onMessageN_rel[OF step_closed_advances] by (rule keepsD)


lemma advances_pot: "advances s s' \<Longrightarrow> pot s' \<le> pot s"
  by (auto simp: advances_def pot_def)

lemma dispatch_fuel: "dispatch s payload \<noteq> OutOfFuel"
  by (simp add: dispatch_def closeSocket_def split: sum.splits)

lemma reloadLoop_fuel:
  assumes h: "fuelled k h"
  shows "pot s < k \<Longrightarrow> reloadLoop h s entries \<noteq> OutOfFuel"
proof (induction entries arbitrary: s)
  case Nil
  then show ?case by simp
next
  case (Cons m entries)
  from h Cons.prems have ne: "h s m \<noteq> OutOfFuel" by (simp add: fuelled_def)
  show ?case
  proof (cases "h s m")
    case (Done s1)
    from h have "keeps advances h" by (simp add: fuelled_def)
    from keepsD[OF this, of s m s1] Done have "pot s1 \<le> pot s" by (simp add: advances_pot)
    with Cons Done show ?thesis by simp
  qed (use ne in simp_all)
qed

lemma reload_fuel:
  assumes h: "fuelled k h" and "pot s < k"
  shows "reload h s message \<noteq> OutOfFuel"
proof -
  have "pot ((emit Reload s)\<lparr>packets := []\<rparr>) = pot s" by (simp add: pot_def)
  with assms show ?thesis
    by (simp add: reload_def Let_def reloadLoop_fuel[OF h])
qed

lemma pot_demote:
  "orangeBox s \<Longrightarrow> pot s \<le> k \<Longrightarrow> pot (demote OrangeBox s) < k"
  "\<not> goldSource s \<Longrightarrow> pot s \<le> k \<Longrightarrow> pot (demote GoldSource s) < k"
  by (auto simp: pot_def)

lemma complete_fuel:
  assumes h: "fuelled k h" and "pot s \<le> k"
  shows "complete c h s \<noteq> OutOfFuel"
proof -
  have "pot (emit e s) = pot s" for e by (simp add: pot_def)
  with assms(2) show ?thesis
    by (auto simp: complete_def Let_def dispatch_fuel split: option.splits
        intro!: reload_fuel[OF h] pot_demote)
qed

lemma store_fuel:
  assumes h: "fuelled k h" and "pot s \<le> k"
  shows "store c h s message totalPackets packetNumber \<noteq> OutOfFuel"
proof -
  have "pot (s\<lparr>packets := p\<rparr>) = pot s" for p by (simp add: pot_def)
  with assms(2) show ?thesis
    by (simp add: store_def Let_def complete_fuel[OF h])
qed

lemma orThrow_OutOfFuel:
  "orThrow s x k = OutOfFuel \<longleftrightarrow> (\<exists>v. x = Inr v \<and> k v = OutOfFuel)"
  by (cases x) (simp_all add: orThrow_def)

lemma multiPacket_fuel:
  assumes h: "fuelled k h" and "pot s \<le> k"
  shows "multiPacket c h s message reader \<noteq> OutOfFuel"
proof
  assume f: "multiPacket c h s message reader = OutOfFuel"
  have p: "pot (s\<lparr>isCompressed := b\<rparr>) \<le> k" "pot (s\<lparr>isCompressed := b, crc32CheckSum := w\<rparr>) \<le> k"
    for b w
    using assms(2) by (simp_all add: pot_def)
  have st: "store c h (s\<lparr>isCompressed := b\<rparr>) m t n \<noteq> OutOfFuel"
    "store c h (s\<lparr>isCompressed := b, crc32CheckSum := w\<rparr>) m t n \<noteq> OutOfFuel" for b w m t n
    by (rule store_fuel[OF h p(1)], rule store_fuel[OF h p(2)])
  have rl: "reload h (demote GoldSource (s\<lparr>isCompressed := b\<rparr>)) m \<noteq> OutOfFuel"
    if "\<not> goldSource s" for b m
    by (rule reload_fuel[OF h pot_demote(2)]) (use that p in simp_all)
  have rl': "reload h (demote OrangeBox (s\<lparr>isCompressed := b\<rparr>)) m \<noteq> OutOfFuel"
    if "orangeBox s" for b m
    by (rule reload_fuel[OF h pot_demote(1)]) (use that p in simp_all)
  show False
    using f st rl rl'
    by (auto simp: multiPacket_def Let_def orThrow_OutOfFuel split: if_splits prod.splits)
qed

lemma onMessageBody_fuel:
  assumes h: "fuelled k h" and "pot s \<le> k"
  shows "onMessageBody c h s message \<noteq> OutOfFuel"
proof
  assume f: "onMessageBody c h s message = OutOfFuel"
  have "pot (emit e s) \<le> k" for e using assms(2) by (simp add: pot_def)
  then have "multiPacket c h (emit e s) m r \<noteq> OutOfFuel" for e m r
    by (rule multiPacket_fuel[OF h])
  then show False
    using f dispatch_fuel
    by (auto simp: onMessageBody_def Let_def orThrow_OutOfFuel split: if_splits prod.splits)
qed

lemma onMessageN_fuelled: "fuelled n (onMessageN n c)"
proof (induction n)
  case 0
  show ?case by (simp add: fuelled_def keeps_def)
next
  case (Suc n)
  have "keeps advances (onMessageN (Suc n) c)"
    by (rule onMessageN_rel[OF step_closed_advances])
  moreover have "onMessageN (Suc n) c s m \<noteq> OutOfFuel" if "pot s < Suc n" for s m
    using that onMessageBody_fuel[OF Suc, of s c m] by simp
  ultimately show ?case unfolding fuelled_def by blast
qed

lemma onMessage_fuel: "onMessage c s m \<noteq> OutOfFuel"
proof -
  have "pot s < 3" by (simp add: pot_def)
  with onMessageN_fuelled[of 3 c] show ?thesis
    by (simp add: fuelled_def onMessage_def)
qed

lemma deliver_fuel: "deliver c s ms \<noteq> OutOfFuel"
proof (induction ms arbitrary: s)
  case Nil
  show ?case by simp
next
  case (Cons m ms)
  then show ?case
    using onMessage_fuel[of c s m] by (cases "onMessage c s m") simp_all
qed


section \<open>Challenge handling\<close>

lemma challenge_step:
  assumes "index m 4 = Some A2S_CHALLENGE_RESPONSE_HEADER"
  shows "onMessageBody c h s m =
     (if retryCount s < maxRetries
      then Done (sendRequest c (Some (subarray m 5 9))
                   ((emit (Recv m) s)\<lparr>retryCount := retryCount s + 1\<rparr>))
      else Done (emit Close (emit (Reject MaxRetriesReached) (emit (Recv m) s))))"
proof -
  from assms have len: "4 < length m" and m4: "m ! 4 = A2S_CHALLENGE_RESPONSE_HEADER"
    by (auto simp: index_def split: if_splits)
  then have "index (subarray m 4 5) 0 = Some A2S_CHALLENGE_RESPONSE_HEADER"
    by (simp add: index_def subarray_def)
  moreover from len have "\<exists>v. readInt32 \<lparr>buffer = m, offset = 0\<rparr> = Inr v"
    by (simp add: readInt32_def read32_def)
  ultimately show ?thesis
    by (auto simp: onMessageBody_def orThrow_def Let_def)
qed

lemma deliver_closed: "Close \<in> set (events s) \<Longrightarrow> deliver c s ms = Done s"
  by (cases ms) simp_all

text \<open>
  C3.  A datagram whose fifth octet is the challenge discriminator makes the handler
  send exactly one request, built from the request header and the octets 5 to 8 of the
  datagram (four octets when the datagram has at least nine), while fewer than two
  retransmissions have been made; the token follows the fixed part of the request (for
  players and rules it stands where the placeholder stood).  With two retransmissions
  made, the handler sends nothing, rejects with "Max retries reached" and closes the
  socket.  So three challenges in a row from the start of a call give two retransmissions
  and then the rejection.
\<close>

theorem challenge_retransmits_once:
  assumes "index m 4 = Some A2S_CHALLENGE_RESPONSE_HEADER"
    and "index m2 4 = Some A2S_CHALLENGE_RESPONSE_HEADER"
    and "index m3 4 = Some A2S_CHALLENGE_RESPONSE_HEADER"
  shows "onMessage c s m =
           (if retryCount s < 2
            then Done (s\<lparr>retryCount := retryCount s + 1,
                         events := events s @
                           [Recv m, Send (request (header c) (Some (subarray m 5 9)))]\<rparr>)
            else Done (s\<lparr>events := events s @ [Recv m, Reject MaxRetriesReached, Close]\<rparr>))
         \<and> request (header c) (Some (subarray m 5 9)) =
             (if header c = 0x54 then request (header c) None @ subarray m 5 9
              else take 5 (request (header c) None) @ subarray m 5 9)
         \<and> length (subarray m 5 9) = min 4 (length m - 5)
         \<and> deliver c (get c) (m # m2 # m3 # rest) =
             Done (init\<lparr>retryCount := 2,
                events := [Send (request (header c) None),
                   Recv m, Send (request (header c) (Some (subarray m 5 9))),
                   Recv m2, Send (request (header c) (Some (subarray m2 5 9))),
                   Recv m3, Reject MaxRetriesReached, Close]\<rparr>)"
proof -
  have "deliver c (get c) (m # m2 # m3 # rest) =
             Done (init\<lparr>retryCount := 2,
                events := [Send (request (header c) None),
                   Recv m, Send (request (header c) (Some (subarray m 5 9))),
                   Recv m2, Send (request (header c) (Some (subarray m2 5 9))),
                   Recv m3, Reject MaxRetriesReached, Close]\<rparr>)"
    using assms
    by (simp add: get_def init_def onMessage_def numeral_3_eq_3 challenge_step sendRequest_def
        emit_def maxRetries_def deliver_closed)
  then show ?thesis
    using assms(1)
    by (simp add: onMessage_def numeral_3_eq_3 challenge_step sendRequest_def emit_def
        request_def subarray_def Let_def maxRetries_def)
qed

theorem challenge_retransmits_once_witness:
  "index [0xFF, 0xFF, 0xFF, 0xFF, 0x41, 1, 2, 3, 4] 4 = Some A2S_CHALLENGE_RESPONSE_HEADER
   \<and> onMessage testLib (get testLib) [0xFF, 0xFF, 0xFF, 0xFF, 0x41, 1, 2, 3, 4] =
       Done (init\<lparr>retryCount := 1,
               events := [Send [0xFF, 0xFF, 0xFF, 0xFF, 0x56, 0xFF, 0xFF, 0xFF, 0xFF],
                          Recv [0xFF, 0xFF, 0xFF, 0xFF, 0x41, 1, 2, 3, 4],
                          Send [0xFF, 0xFF, 0xFF, 0xFF, 0x56, 1, 2, 3, 4]]\<rparr>)"
proof -
  have h: "index [0xFF, 0xFF, 0xFF, 0xFF, 0x41, 1, 2, 3, 4] 4 = Some A2S_CHALLENGE_RESPONSE_HEADER"
    by (simp add: index_def A2S_CHALLENGE_RESPONSE_HEADER_def)
  show ?thesis
    using h challenge_retransmits_once [OF h h h, of testLib "get testLib"]
    by (simp add: get_def init_def sendRequest_def emit_def request_def testLib_def
        subarray_def)
qed

text \<open>
  C5.  The handler tests the fifth octet alone.  The datagram \<open>id65\<close> begins with the
  multi-packet marker \<open>0xFFFFFFFE\<close>; it is the first fragment of a response whose
  identifier is 65, and its fifth octet is therefore \<open>0x41\<close>.  It is handled as a challenge:
  the request is sent again with the octets 5 to 8 of the fragment as the token, and the
  fragment is not buffered.
\<close>

theorem multi_packet_taken_for_challenge:
  "take 4 id65 = [0xFE, 0xFF, 0xFF, 0xFF]
   \<and> onMessage c (get c) id65 =
       Done ((get c)\<lparr>retryCount := 1,
                events := events (get c) @
                  [Recv id65, Send (request (header c) (Some [0, 0, 0, 2]))]\<rparr>)"
proof -
  have "index id65 4 = Some A2S_CHALLENGE_RESPONSE_HEADER"
    by (simp add: index_def A2S_CHALLENGE_RESPONSE_HEADER_def id65_def)
  then have "onMessageBody c h (get c) id65 =
      Done (sendRequest c (Some (subarray id65 5 9))
                   ((emit (Recv id65) (get c))\<lparr>retryCount := 1\<rparr>))" for h
    by (simp add: challenge_step maxRetries_def get_def sendRequest_def init_def emit_def)
  moreover have "subarray id65 5 9 = [0, 0, 0, 2]" "take 4 id65 = [0xFE, 0xFF, 0xFF, 0xFF]"
    by (simp_all add: subarray_def id65_def)
  ultimately show ?thesis
    by (simp add: onMessage_def numeral_3_eq_3 sendRequest_def emit_def)
qed

section \<open>Exceptions that leave the handler\<close>

lemma checksum_mismatch_run:
  "deliver testLib (get testLib) [bz0, bz1] =
     Thrown (ChecksumMismatch 1324 1323)
       ((get testLib)\<lparr>packets := [(0, bz0), (1, bz1)], isCompressed := True,
          crc32CheckSum := 1324,
          events := events (get testLib) @
            [Recv bz0, Recv bz1,
             Payload [0x42, 0x5A, 0x68, 0x39, 0xFF, 0xFF, 0xFF, 0xFF, 0x45, 1, 0, 0x73, 0, 0x76, 0]]\<rparr>)"
  by code_simp


text \<open>
  C2.  The socket is closed where the handler calls \<open>resolve\<close> or \<open>reject\<close>, but an
  exception that leaves the handler passes the call of \<open>socket.close()\<close> by.  A single
  datagram with the unknown discriminator \<open>0x00\<close> ends the handler with the
  "Unknown response type" exception: nothing is rejected and the socket stays open.
  The same holds for the checksum mismatch of the compressed response \<open>bz0\<close>, \<open>bz1\<close>.
\<close>

theorem exception_leaves_socket_open:
  "deliver c (get c) [[0xFF, 0xFF, 0xFF, 0xFF, 0x00]] =
     Thrown UnknownResponseType
       ((get c)\<lparr>events := events (get c) @ [Recv [0xFF, 0xFF, 0xFF, 0xFF, 0x00]]\<rparr>)
   \<and> Close \<notin> set (events (get c) @ [Recv [0xFF, 0xFF, 0xFF, 0xFF, 0x00]])
   \<and> deliver testLib (get testLib) [bz0, bz1] =
       Thrown (ChecksumMismatch 1324 1323)
         ((get testLib)\<lparr>packets := [(0, bz0), (1, bz1)], isCompressed := True,
            crc32CheckSum := 1324,
            events := events (get testLib) @
              [Recv bz0, Recv bz1,
               Payload [0x42, 0x5A, 0x68, 0x39, 0xFF, 0xFF, 0xFF,
                        0xFF, 0x45, 1, 0, 0x73, 0, 0x76, 0]]\<rparr>)
   \<and> Close \<notin> set (events (get testLib) @
              [Recv bz0, Recv bz1,
               Payload [0x42, 0x5A, 0x68, 0x39, 0xFF, 0xFF, 0xFF,
                        0xFF, 0x45, 1, 0, 0x73, 0, 0x76, 0]])"
proof -
  have "deliver c (get c) [[0xFF, 0xFF, 0xFF, 0xFF, 0x00]] =
     Thrown UnknownResponseType
       ((get c)\<lparr>events := events (get c) @ [Recv [0xFF, 0xFF, 0xFF, 0xFF, 0x00]]\<rparr>)"
    by code_simp
  moreover have "Close \<notin> set (events (get c))" for c
    by (simp add: get_def sendRequest_def emit_def init_def)
  ultimately show ?thesis
    using checksum_mismatch_run by simp
qed

section \<open>Order of arrival\<close>

text \<open>
  C4.  The GoldSource response \<open>gs0\<close>, \<open>gs1\<close>, \<open>gs2\<close> is assembled and decoded when its
  fragments arrive in ascending order.  When the first fragment arrives last, the other
  two have been buffered under the framing assumed so far, which takes the first octet of
  their content (\<open>0x73\<close> for both) for the packet number: the second overwrites the first,
  the reload after the detection of the GoldSource framing finds one of them only, and
  the response is never assembled.
\<close>

theorem arrival_order_matters:
  "deliver c (get c) [gs0, gs1, gs2] =
     Done ((get c)\<lparr>packets := [(0, gs0), (1, gs1), (2, gs2)], goldSource := True,
        events := events (get c) @
          [Recv gs0, Detected GoldSource, Reload, Recv gs0, Recv gs1, Recv gs2,
           Payload [0xFF, 0xFF, 0xFF, 0xFF, 0x45, 2, 0, 0x73, 0x61, 0, 0x31, 0,
                    0x73, 0x62, 0, 0x32, 0],
           Resolve (Rules [(ascii ''sa'', ascii ''1''), (ascii ''sb'', ascii ''2'')]), Close]\<rparr>)
   \<and> deliver c (get c) [gs1, gs2, gs0] =
     Done ((get c)\<lparr>packets := [(0, gs0), (2, gs2)], goldSource := True,
        events := events (get c) @
          [Recv gs1, Recv gs2, Recv gs0, Detected GoldSource, Reload, Recv gs2, Recv gs0]\<rparr>)"
  by code_simp


section \<open>Demotion of the dialect assumptions\<close>

lemma reloaded_single: "(\<And>f. e \<noteq> Detected f) \<Longrightarrow> reloaded [e]"
  by (cases e) auto

lemma dialect_emit: "dialect_step s (emit e s)" if "\<forall>f. e \<noteq> Detected f" for s e
    unfolding dialect_step_def using that by (auto simp: reloaded_single)

lemma dialect_demote_gold: "dialect_step s (emit Reload (demote GoldSource s))" if "\<not> goldSource s" for s
    unfolding dialect_step_def using that by auto

lemma dialect_demote_orange: "dialect_step s (emit Reload (demote OrangeBox s))" if "orangeBox s" for s
    unfolding dialect_step_def using that by auto

lemma dialect_update: "dialect_step s (s\<lparr>retryCount := n\<rparr>)" "dialect_step s (s\<lparr>packets := p\<rparr>)"
    "dialect_step s (s\<lparr>isCompressed := b\<rparr>)" "dialect_step s (s\<lparr>crc32CheckSum := w\<rparr>)"
    "dialect_step s s" for s n p b w
    unfolding dialect_step_def by auto


lemma reloaded_append: "reloaded xs \<Longrightarrow> reloaded ys \<Longrightarrow> reloaded (xs @ ys)"
  by (induction xs rule: reloaded.induct) (auto split: list.splits event.splits)

lemma count_list_app: "count_list (xs @ ys) x = count_list xs x + count_list ys x"
  by (induction xs) auto

lemma dialect_stepD:
  assumes "dialect_step a b"
  obtains es where "events b = events a @ es" "reloaded es"
        "count_list es (Detected GoldSource) = (if goldSource b \<and> \<not> goldSource a then 1 else 0)"
        "count_list es (Detected OrangeBox) = (if orangeBox a \<and> \<not> orangeBox b then 1 else 0)"
        "goldSource a \<longrightarrow> goldSource b" "orangeBox b \<longrightarrow> orangeBox a"
  using assms unfolding dialect_step_def
  apply (elim conjE exE)
  apply (rule that)
       apply assumption+
  done

lemma dialect_stepI:
  assumes "events b = events a @ es" "reloaded es"
        "count_list es (Detected GoldSource) = (if goldSource b \<and> \<not> goldSource a then 1 else 0)"
        "count_list es (Detected OrangeBox) = (if orangeBox a \<and> \<not> orangeBox b then 1 else 0)"
        "goldSource a \<longrightarrow> goldSource b" "orangeBox b \<longrightarrow> orangeBox a"
  shows "dialect_step a b"
  unfolding dialect_step_def
  apply (intro conjI exI[of _ es])
       apply (rule assms)+
  done

lemma dialect_trans: "dialect_step a c" if "dialect_step a b" "dialect_step b c" for a b c
proof -
  from that(1) obtain es1 where
      1: "events b = events a @ es1" "reloaded es1"
        "count_list es1 (Detected GoldSource) = (if goldSource b \<and> \<not> goldSource a then 1 else 0)"
        "count_list es1 (Detected OrangeBox) = (if orangeBox a \<and> \<not> orangeBox b then 1 else 0)"
        "goldSource a \<longrightarrow> goldSource b" "orangeBox b \<longrightarrow> orangeBox a"
    by (rule dialect_stepD)
  from that(2) obtain es2 where
      2: "events c = events b @ es2" "reloaded es2"
        "count_list es2 (Detected GoldSource) = (if goldSource c \<and> \<not> goldSource b then 1 else 0)"
        "count_list es2 (Detected OrangeBox) = (if orangeBox b \<and> \<not> orangeBox c then 1 else 0)"
        "goldSource b \<longrightarrow> goldSource c" "orangeBox c \<longrightarrow> orangeBox b"
    by (rule dialect_stepD)
  show ?thesis
  proof (rule dialect_stepI)
    show "events c = events a @ (es1 @ es2)" using 1 2 by simp
    show "reloaded (es1 @ es2)" using 1 2 by (simp add: reloaded_append)
    show "count_list (es1 @ es2) (Detected GoldSource) = (if goldSource c \<and> \<not> goldSource a then 1 else 0)"
      using 1(3,5) 2(3,5)
      by (cases "goldSource a"; cases "goldSource b"; cases "goldSource c";
          simp add: count_list_app)
    show "count_list (es1 @ es2) (Detected OrangeBox) = (if orangeBox a \<and> \<not> orangeBox c then 1 else 0)"
      using 1(4,6) 2(4,6)
      by (cases "orangeBox a"; cases "orangeBox b"; cases "orangeBox c";
          simp add: count_list_app)
    show "goldSource a \<longrightarrow> goldSource c" using 1(5) 2(5) by simp
    show "orangeBox c \<longrightarrow> orangeBox a" using 1(6) 2(6) by simp
  qed
qed

lemma step_closed_dialect: "step_closed dialect_step"
  unfolding step_closed_def
  apply (intro conjI allI impI)
          apply (rule dialect_update)
         apply (erule (1) dialect_trans)
        apply (rule dialect_emit, simp)
       apply (rule dialect_update)+
   apply (erule dialect_demote_gold)
  apply (erule dialect_demote_orange)
  done

lemma deliver_rel:
  assumes R: "step_closed R"
  shows "final (deliver c s ms) = Some s' \<Longrightarrow> R s s'"
proof (induction ms arbitrary: s)
  case Nil
  then show ?case by (simp add: step_closedD(1)[OF R])
next
  case (Cons m ms)
  show ?case
  proof (cases "Close \<in> set (events s)")
    case True
    with Cons.prems show ?thesis by (simp add: step_closedD(1)[OF R])
  next
    case False
    have k: "keeps R (onMessageN 3 c)" by (rule onMessageN_rel[OF R])
    show ?thesis
    proof (cases "onMessage c s m")
      case (Done s1)
      then have "R s s1" using keepsD[OF k, of s m s1] by (simp add: onMessage_def)
      moreover from Cons False Done have "R s1 s'" by simp
      ultimately show ?thesis by (rule step_closedD(2)[OF R])
    next
      case (Thrown e s1)
      with Cons.prems False have "s' = s1" by simp
      with Thrown show ?thesis using keepsD[OF k, of s m s1] by (simp add: onMessage_def)
    next
      case OutOfFuel
      with Cons.prems False show ?thesis by simp
    qed
  qed
qed

lemma onMessageN_Recv:
  assumes "onMessageN n c s m = Done s'"
  shows "\<exists>es. events s' = events s @ Recv m # es"
proof (cases n)
  case 0
  with assms show ?thesis by simp
next
  case (Suc k)
  have st: "step_closed advances" by (rule step_closed_advances)
  have kp: "keeps advances (onMessageN k c)" by (rule onMessageN_rel[OF st])
  from assms Suc have "final (onMessageBody c (onMessageN k c) s m) = Some s'" by simp
  from onMessageBody_rel_Recv[OF st kp this] show ?thesis
    by (auto simp: advances_def)
qed

lemma reloadLoop_Recv:
  "reloadLoop (onMessageN n c) s entries = Done s' \<Longrightarrow>
     \<exists>es. events s' = events s @ es \<and> (\<forall>p \<in> set entries. Recv p \<in> set es)"
proof (induction entries arbitrary: s)
  case Nil
  then show ?case by simp
next
  case (Cons m entries)
  from Cons.prems obtain s1 where 1: "onMessageN n c s m = Done s1"
    and 2: "reloadLoop (onMessageN n c) s1 entries = Done s'"
    by (auto split: outcome.splits)
  from onMessageN_Recv[OF 1] obtain es1 where e1: "events s1 = events s @ Recv m # es1" by blast
  from Cons.IH[OF 2] obtain es2 where e2: "events s' = events s1 @ es2"
    "\<forall>p \<in> set entries. Recv p \<in> set es2" by blast
  have "events s' = events s @ (Recv m # es1 @ es2)" using e1 e2 by simp
  moreover have "\<forall>p \<in> set (m # entries). Recv p \<in> set (Recv m # es1 @ es2)" using e2 by auto
  ultimately show ?case by blast
qed

lemma reload_Recv:
  assumes "reload (onMessageN n c) s msg = Done s'"
  shows "\<forall>p \<in> snd ` set (packets s) \<union> set_option msg.
            Recv p \<in> set (drop (length (events s)) (events s'))"
proof -
  let ?s1 = "(emit Reload s)\<lparr>packets := []\<rparr>"
  let ?en = "map snd (packets s) @ (case msg of Some m \<Rightarrow> [m] | None \<Rightarrow> [])"
  have "reload (onMessageN n c) s msg = reloadLoop (onMessageN n c) ?s1 ?en"
    by (cases msg) (simp_all add: reload_def Let_def)
  with assms have "reloadLoop (onMessageN n c) ?s1 ?en = Done s'" by simp
  from reloadLoop_Recv[OF this] obtain es where
    es: "events s' = events ?s1 @ es" "\<forall>p \<in> set ?en. Recv p \<in> set es"
    by blast
  then have "drop (length (events s)) (events s') = Reload # es" by simp
  with es(2) show ?thesis by (cases msg) auto
qed



lemma reloadLoop_Thrown:
  "reloadLoop h s entries = Thrown e s' \<Longrightarrow>
     \<exists>pre m suf sm. entries = pre @ m # suf \<and> reloadLoop h s pre = Done sm
        \<and> h sm m = Thrown e s'"
proof (induction entries arbitrary: s)
  case Nil
  then show ?case by simp
next
  case (Cons a entries)
  show ?case
  proof (cases "h s a")
    case (Done s1)
    with Cons.prems have "reloadLoop h s1 entries = Thrown e s'" by simp
    from Cons.IH[OF this] obtain pre m suf sm where
      "entries = pre @ m # suf" "reloadLoop h s1 pre = Done sm" "h sm m = Thrown e s'"
      by blast
    with Done have "a # entries = (a # pre) @ m # suf \<and> reloadLoop h s (a # pre) = Done sm
        \<and> h sm m = Thrown e s'"
      by simp
    then show ?thesis by blast
  next
    case (Thrown e1 s1)
    with Cons.prems have "a # entries = [] @ a # entries \<and> reloadLoop h s [] = Done s
        \<and> h s a = Thrown e s'"
      by simp
    then show ?thesis by blast
  next
    case OutOfFuel
    with Cons.prems show ?thesis by simp
  qed
qed

lemma reload_Thrown:
  assumes "reload h s msg = Thrown e s'"
  shows "\<exists>pre m suf sm.
           map snd (packets s) @ (case msg of Some m \<Rightarrow> [m] | None \<Rightarrow> []) = pre @ m # suf
           \<and> reloadLoop h ((emit Reload s)\<lparr>packets := []\<rparr>) pre = Done sm
           \<and> h sm m = Thrown e s'"
proof -
  have "reload h s msg = reloadLoop h ((emit Reload s)\<lparr>packets := []\<rparr>)
          (map snd (packets s) @ (case msg of Some m \<Rightarrow> [m] | None \<Rightarrow> []))"
    by (cases msg) (simp_all add: reload_def Let_def)
  with assms have "reloadLoop h ((emit Reload s)\<lparr>packets := []\<rparr>)
          (map snd (packets s) @ (case msg of Some m \<Rightarrow> [m] | None \<Rightarrow> [])) = Thrown e s'"
    by simp
  then show ?thesis
    by (rule reloadLoop_Thrown)
qed


text \<open>
  C6, as amended.  Between any two moments of a call (the start and the end of a sequence
  of deliveries, or of one handler invocation, nested ones included) a demoted flag stays
  demoted, and the trace in between holds one detection line of a dialect exactly when
  its flag was demoted in between: over the whole call each flag is demoted at most once.
  Each detection is directly followed by the entry into \<open>reload\<close>, which passes the
  datagrams held in the buffer at its entry, in the order of their keys, and then the
  current one when it is given, through \<open>onMessage\<close> again, up to the first of them whose
  handling throws: a \<open>reload\<close> that returns has passed all of them, and a \<open>reload\<close> that
  throws has passed the ones before the datagram that threw, and none after it.
\<close>

theorem demotion_once_and_reload:
  "(final (deliver c s ms) = Some s' \<longrightarrow> dialect_step s s')
   \<and> (final (deliver c (get c) ms) = Some s' \<longrightarrow>
        count_list (events s') (Detected GoldSource) = (if goldSource s' then 1 else 0)
        \<and> count_list (events s') (Detected OrangeBox) = (if orangeBox s' then 0 else 1))
   \<and> (final (onMessageN n c s m) = Some s'' \<longrightarrow> dialect_step s s'')
   \<and> (reload (onMessageN n c) s1 msg = Done s2 \<longrightarrow>
        (\<forall>p \<in> snd ` set (packets s1) \<union> set_option msg.
            Recv p \<in> set (drop (length (events s1)) (events s2))))
   \<and> (reload (onMessageN n c) s3 msg' = Thrown e s4 \<longrightarrow>
        (\<exists>pre p suf sm.
            map snd (packets s3) @ (case msg' of Some m \<Rightarrow> [m] | None \<Rightarrow> []) = pre @ p # suf
            \<and> reloadLoop (onMessageN n c) ((emit Reload s3)\<lparr>packets := []\<rparr>) pre = Done sm
            \<and> onMessageN n c sm p = Thrown e s4))"
proof (intro conjI impI)
  show "\<exists>pre p suf sm.
            map snd (packets s3) @ (case msg' of Some m \<Rightarrow> [m] | None \<Rightarrow> []) = pre @ p # suf
            \<and> reloadLoop (onMessageN n c) ((emit Reload s3)\<lparr>packets := []\<rparr>) pre = Done sm
            \<and> onMessageN n c sm p = Thrown e s4"
    if "reload (onMessageN n c) s3 msg' = Thrown e s4"
    using that by (rule reload_Thrown)
  show "dialect_step s s'" if "final (deliver c s ms) = Some s'"
    using that by (rule deliver_rel[OF step_closed_dialect])
  show "dialect_step s s''" if "final (onMessageN n c s m) = Some s''"
    using that by (rule keepsD[OF onMessageN_rel[OF step_closed_dialect]])
  show "\<forall>p \<in> snd ` set (packets s1) \<union> set_option msg.
            Recv p \<in> set (drop (length (events s1)) (events s2))"
    if "reload (onMessageN n c) s1 msg = Done s2"
    using that by (rule reload_Recv)
  assume "final (deliver c (get c) ms) = Some s'"
  then have "dialect_step (get c) s'"
    by (rule deliver_rel[OF step_closed_dialect])
  then obtain es where es: "events s' = events (get c) @ es"
        "count_list es (Detected GoldSource) = (if goldSource s' \<and> \<not> goldSource (get c) then 1 else 0)"
        "count_list es (Detected OrangeBox) = (if orangeBox (get c) \<and> \<not> orangeBox s' then 1 else 0)"
    by (rule dialect_stepD)
  have g: "events (get c) = [Send (request (header c) None)]" "\<not> goldSource (get c)"
    "orangeBox (get c)"
    by (simp_all add: get_def sendRequest_def init_def)
  show "count_list (events s') (Detected GoldSource) = (if goldSource s' then 1 else 0)"
    using es(2) by (simp add: es(1) g)
  show "count_list (events s') (Detected OrangeBox) = (if orangeBox s' then 0 else 1)"
    using es(3) by (simp add: es(1) g)
qed

theorem demotion_once_and_reload_witness:
  "final (deliver testLib (get testLib) [gs1, gs0]) =
     Some (init\<lparr>packets := [(0, gs0), (1, gs1)], goldSource := True,
             events := [Send [0xFF, 0xFF, 0xFF, 0xFF, 0x56, 0xFF, 0xFF, 0xFF, 0xFF],
                        Recv gs1, Recv gs0, Detected GoldSource, Reload, Recv gs1, Recv gs0]\<rparr>)
   \<and> dialect_step (get testLib)
        (init\<lparr>packets := [(0, gs0), (1, gs1)], goldSource := True,
             events := [Send [0xFF, 0xFF, 0xFF, 0xFF, 0x56, 0xFF, 0xFF, 0xFF, 0xFF],
                        Recv gs1, Recv gs0, Detected GoldSource, Reload, Recv gs1, Recv gs0]\<rparr>)
   \<and> reload (onMessageN 2 testLib)
        (init\<lparr>packets := [(115, gs1)], goldSource := True,
             events := [Send [0xFF, 0xFF, 0xFF, 0xFF, 0x56, 0xFF, 0xFF, 0xFF, 0xFF],
                        Recv gs1, Recv gs0, Detected GoldSource]\<rparr>) (Some gs0) =
       Done (init\<lparr>packets := [(0, gs0), (1, gs1)], goldSource := True,
             events := [Send [0xFF, 0xFF, 0xFF, 0xFF, 0x56, 0xFF, 0xFF, 0xFF, 0xFF],
                        Recv gs1, Recv gs0, Detected GoldSource, Reload, Recv gs1, Recv gs0]\<rparr>)
   \<and> Recv gs1 \<in> set (drop 4 [Send [0xFF, 0xFF, 0xFF, 0xFF, 0x56, 0xFF, 0xFF, 0xFF, 0xFF],
                        Recv gs1, Recv gs0, Detected GoldSource, Reload, Recv gs1, Recv gs0])"
proof -
  let ?S = "init\<lparr>packets := [(0, gs0), (1, gs1)], goldSource := True,
             events := [Send [0xFF, 0xFF, 0xFF, 0xFF, 0x56, 0xFF, 0xFF, 0xFF, 0xFF],
                        Recv gs1, Recv gs0, Detected GoldSource, Reload, Recv gs1, Recv gs0]\<rparr>"
  let ?S1 = "init\<lparr>packets := [(115, gs1)], goldSource := True,
             events := [Send [0xFF, 0xFF, 0xFF, 0xFF, 0x56, 0xFF, 0xFF, 0xFF, 0xFF],
                        Recv gs1, Recv gs0, Detected GoldSource]\<rparr>"
  have r: "final (deliver testLib (get testLib) [gs1, gs0]) = Some ?S"
    by code_simp
  have l: "reload (onMessageN 2 testLib) ?S1 (Some gs0) = Done ?S"
    by code_simp
  note T = demotion_once_and_reload
    [of testLib "get testLib" "[gs1, gs0]" ?S 2 gs1 ?S ?S1 "Some gs0" ?S]
  from T r have 1: "dialect_step (get testLib) ?S"
    by blast
  from T l have "\<forall>p \<in> snd ` set (packets ?S1) \<union> set_option (Some gs0).
            Recv p \<in> set (drop (length (events ?S1)) (events ?S))"
    by blast
  then have "Recv gs1 \<in> set (drop (length (events ?S1)) (events ?S))"
    by simp
  then have 2: "Recv gs1 \<in> set (drop 4 [Send [0xFF, 0xFF, 0xFF, 0xFF, 0x56, 0xFF, 0xFF, 0xFF, 0xFF],
                        Recv gs1, Recv gs0, Detected GoldSource, Reload, Recv gs1, Recv gs0])"
    by simp
  from r 1 l 2 show ?thesis
    by blast
qed


text \<open>
  C6 as first stated, with every buffered datagram reprocessed at every demotion, fails
  on the datagrams \<open>early7\<close>, \<open>early8\<close>, \<open>gold3\<close>: the first two are buffered under the keys
  7 and 8, the third demotes the GoldSource flag and enters \<open>reload\<close>; there \<open>early7\<close> is
  read as the only fragment of a response and assembled, the decoder throws on its
  content, and neither \<open>early8\<close> nor \<open>gold3\<close> is handled again.
\<close>

theorem reload_ends_at_exception:
  "deliver testLib (get testLib) [early7, early8, gold3] =
     Thrown UnknownResponseType
       ((get testLib)\<lparr>packets := [(1, early7)], goldSource := True,
          events := events (get testLib) @
            [Recv early7, Recv early8, Recv gold3, Detected GoldSource, Reload,
             Recv early7, Payload [7, 0, 0, 0, 0, 0, 0]]\<rparr>)
   \<and> onMessage testLib (get testLib) early7 =
       Done ((get testLib)\<lparr>packets := [(7, early7)],
          events := events (get testLib) @ [Recv early7]\<rparr>)
   \<and> onMessage testLib
        ((get testLib)\<lparr>packets := [(7, early7)],
          events := events (get testLib) @ [Recv early7]\<rparr>) early8 =
       Done ((get testLib)\<lparr>packets := [(7, early7), (8, early8)],
          events := events (get testLib) @ [Recv early7, Recv early8]\<rparr>)
   \<and> Recv early8 \<notin> set [Recv early7, Payload [7, 0, 0, 0, 0, 0, 0]]
   \<and> Recv gold3 \<notin> set [Recv early7, Payload [7, 0, 0, 0, 0, 0, 0]]"
  by code_simp


section \<open>Fragments and the buffer\<close>

lemma multiPacket_fields:
  "multiPacket c h s message \<lparr>buffer = message, offset = 4\<rparr> =
     (case multiHeader (goldSource s) (orangeBox s) message of
        Unreadable e None \<Rightarrow> Thrown e s
      | Unreadable e (Some b) \<Rightarrow> Thrown e (s\<lparr>isCompressed := b\<rparr>)
      | Contradicts f b \<Rightarrow> reload h (demote f (s\<lparr>isCompressed := b\<rparr>)) (Some message)
      | Fields b t k w \<Rightarrow> store c h (framed s b w) message t k)"
proof -
  define F where "F = (\<lambda>r. case r of
        Unreadable e None \<Rightarrow> Thrown e s
      | Unreadable e (Some b) \<Rightarrow> Thrown e (s\<lparr>isCompressed := b\<rparr>)
      | Contradicts f b \<Rightarrow> reload h (demote f (s\<lparr>isCompressed := b\<rparr>)) (Some message)
      | Fields b t k w \<Rightarrow> store c h (framed s b w) message t k)"
  have F: "F (Unreadable e None) = Thrown e s"
    "F (Unreadable e (Some b)) = Thrown e (s\<lparr>isCompressed := b\<rparr>)"
    "F (Contradicts f b) = reload h (demote f (s\<lparr>isCompressed := b\<rparr>)) (Some message)"
    "F (Fields b t k None) = store c h (s\<lparr>isCompressed := b\<rparr>) message t k"
    "F (Fields b t k (Some w)) = store c h (s\<lparr>isCompressed := b, crc32CheckSum := w\<rparr>) message t k"
    for e b f t k w
    by (simp_all add: F_def framed_def)
  have "multiPacket c h s message \<lparr>buffer = message, offset = 4\<rparr> =
      F (multiHeader (goldSource s) (orangeBox s) message)"
    unfolding multiPacket_def multiHeader_def orThrow_def Let_def
    by (simp add: sum.case_distrib[of F] prod.case_distrib[of F] if_distrib[of F] F
        cong: sum.case_cong if_cong)
  then show ?thesis by (simp add: F_def)
qed

lemma multi_body:
  assumes "multi m"
  shows "onMessageBody c h s m =
           multiPacket c h (emit (Recv m) s) m \<lparr>buffer = m, offset = 4\<rparr>"
proof -
  from assms have t: "take 4 m = [0xFE, 0xFF, 0xFF, 0xFF]" and i: "index m 4 \<noteq> Some 0x41"
    by (simp_all add: multi_def)
  have "m = take 4 m @ drop 4 m" by simp
  with t obtain rest where m: "m = 0xFE # 0xFF # 0xFF # 0xFF # rest"
    by (metis append_Cons append_Nil)
  have r: "readInt32 \<lparr>buffer = m, offset = 0\<rparr> =
      Inr (A2S_MULTI_PACKET_HEADER, \<lparr>buffer = m, offset = 4\<rparr>)"
    unfolding m by (simp add: readInt32_def read32_def le32_def A2S_MULTI_PACKET_HEADER_def)
  have "index (subarray m 4 5) 0 = index m 4"
    by (simp add: index_def subarray_def)
  with i r show ?thesis
    by (simp add: onMessageBody_def orThrow_def Let_def A2S_CHALLENGE_RESPONSE_HEADER_def
        A2S_MULTI_PACKET_HEADER_def A2S_SINGLE_PACKET_HEADER_def)
qed


lemma framed_fields [simp]:
  "retryCount (framed s b w) = retryCount s" "packets (framed s b w) = packets s"
  "isCompressed (framed s b w) = b"
  "crc32CheckSum (framed s b w) = (case w of None \<Rightarrow> crc32CheckSum s | Some x \<Rightarrow> x)"
  "goldSource (framed s b w) = goldSource s" "orangeBox (framed s b w) = orangeBox s"
  "events (framed s b w) = events s"
  by (simp_all add: framed_def split: option.splits)

lemma fragment_step:
  assumes "multi m" and "multiHeader (goldSource s) (orangeBox s) m = Fields b t k w"
  shows "onMessageN (Suc n) c s m =
           store c (onMessageN n c) (framed (emit (Recv m) s) b w) m t k"
  using assms by (simp add: multi_body multiPacket_fields)

lemma put_keys: "fst ` set (put k v ps) = insert k (fst ` set ps)"
proof (induction ps)
  case Nil
  show ?case by simp
next
  case (Cons p ps)
  obtain k' v' where p: "p = (k', v')" by (cases p)
  consider "k = k'" | "k < k'" | "k' < k" by linarith
  then show ?case
  proof cases
    case 1
    then show ?thesis by (simp add: p)
  next
    case 2
    then show ?thesis by (simp add: p insert_commute)
  next
    case 3
    then show ?thesis using Cons.IH by (simp add: p insert_commute)
  qed
qed

lemma put_sorted:
  "sorted_wrt (<) (map fst ps) \<Longrightarrow> sorted_wrt (<) (map fst (put k v ps))"
proof (induction ps)
  case Nil
  show ?case by simp
next
  case (Cons p ps)
  obtain k' v' where p: "p = (k', v')" by (cases p)
  from Cons.prems have s: "sorted_wrt (<) (map fst ps)" and lt: "\<forall>j \<in> fst ` set ps. k' < j"
    by (auto simp: p)
  show ?case
  proof (cases "k = k' \<or> k < k'")
    case True
    with Cons.prems lt show ?thesis by (auto simp: p)
  next
    case False
    then have "k' < k" by simp
    with s lt Cons.IH False show ?thesis
      by (auto simp: p put_keys)
  qed
qed

lemma keys_bounded_length:
  assumes "sorted_wrt (<) (map fst ps)" and "\<forall>j \<in> fst ` set ps. j < N"
  shows "length ps \<le> N"
proof -
  from assms(1) have "distinct (map fst ps)"
    by (simp add: strict_sorted_iff)
  then have "card (set (map fst ps)) = length ps"
    by (metis distinct_card length_map)
  moreover from assms(2) have "set (map fst ps) \<subseteq> {..<N}" by auto
  then have "card (set (map fst ps)) \<le> N"
    by (metis card_lessThan card_mono finite_lessThan)
  ultimately show ?thesis by simp
qed


text \<open>
  C7, as amended.  Take a datagram of the multi-packet branch whose header, read under
  the flags in force, declares the total \<open>N\<close> and a packet number \<open>k\<close> below \<open>N\<close>, and
  suppose every packet number buffered so far is below \<open>N\<close> (the buffer lists its keys in
  ascending order, as it always does).  Then the handler stores the datagram, the buffer
  then holds at most \<open>N\<close> packet numbers, all below \<open>N\<close>, and the handler goes on to the
  reassembly block in this same invocation exactly when the buffer then holds \<open>N\<close> of
  them; otherwise it returns.
\<close>

theorem buffer_within_consistent_total:
  assumes "multi m"
    and "multiHeader (goldSource s) (orangeBox s) m = Fields b N k w"
    and "k < N"
    and "\<forall>j \<in> fst ` set (packets s). j < N"
    and "sorted_wrt (<) (map fst (packets s))"
  shows "let s2 = (framed (emit (Recv m) s) b w)\<lparr>packets := put k m (packets s)\<rparr>
         in onMessageN (Suc n) c s m =
              (if length (packets s2) = N then complete c (onMessageN n c) s2 else Done s2)
            \<and> length (packets s2) \<le> N
            \<and> (\<forall>j \<in> fst ` set (packets s2). j < N)
            \<and> sorted_wrt (<) (map fst (packets s2))"
proof -
  let ?s1 = "framed (emit (Recv m) s) b w"
  have p1: "packets ?s1 = packets s"
    by (simp add: framed_def split: option.splits)
  let ?s2 = "?s1\<lparr>packets := put k m (packets s)\<rparr>"
  have k: "\<forall>j \<in> fst ` set (packets ?s2). j < N"
    using assms(3,4) by (simp add: put_keys)
  have so: "sorted_wrt (<) (map fst (packets ?s2))"
    using assms(5) by (simp add: put_sorted)
  have "length (packets ?s2) \<le> N"
    using so k by (rule keys_bounded_length)
  moreover have "onMessageN (Suc n) c s m =
      (if length (packets ?s2) = N then complete c (onMessageN n c) ?s2 else Done ?s2)"
    unfolding fragment_step[OF assms(1,2)] by (simp add: store_def Let_def p1)
  ultimately show ?thesis
    using k so unfolding Let_def by blast
qed


theorem buffer_within_consistent_total_witness:
  "multi un1
   \<and> multiHeader False True un1 = Fields False 2 1 None
   \<and> onMessageN 3 testLib
        ((get testLib)\<lparr>packets := [(0, un0)], events := events (get testLib) @ [Recv un0]\<rparr>) un1 =
       Done ((get testLib)\<lparr>packets := [(0, un0), (1, un1)],
               events := events (get testLib) @
                 [Recv un0, Recv un1,
                  Payload [0xFF, 0xFF, 0xFF, 0xFF, 0x45, 1, 0, 0x73, 0, 0x76, 0],
                  Resolve (Rules [(ascii ''s'', ascii ''v'')]), Close]\<rparr>)
   \<and> length (put 1 un1 [(0, un0)]) \<le> 2"
proof -
  let ?s = "(get testLib)\<lparr>packets := [(0, un0)], events := events (get testLib) @ [Recv un0]\<rparr>"
  have m: "multi un1"
    by code_simp
  have h: "multiHeader (goldSource ?s) (orangeBox ?s) un1 = Fields False 2 1 None"
    by code_simp
  have h': "multiHeader False True un1 = Fields False 2 1 None"
    by code_simp
  have k: "(1::nat) < 2"
    by simp
  have b: "\<forall>j \<in> fst ` set (packets ?s). j < 2"
    by simp
  have so: "sorted_wrt (<) (map fst (packets ?s))"
    by simp
  from buffer_within_consistent_total [OF m h k b so, of 2 testLib]
  have "length (put 1 un1 (packets ?s)) \<le> 2"
    by (simp add: Let_def)
  then have l: "length (put 1 un1 [(0, un0)]) \<le> 2"
    by simp
  have r: "onMessageN 3 testLib ?s un1 =
       Done ((get testLib)\<lparr>packets := [(0, un0), (1, un1)],
               events := events (get testLib) @
                 [Recv un0, Recv un1,
                  Payload [0xFF, 0xFF, 0xFF, 0xFF, 0x45, 1, 0, 0x73, 0, 0x76, 0],
                  Resolve (Rules [(ascii ''s'', ascii ''v'')]), Close]\<rparr>)"
    by code_simp
  from m h' r l show ?thesis
    by blast
qed


text \<open>
  C7 as first stated fails when the datagrams of a call disagree about the total: after
  \<open>tot3\<close> (fragment 0 of 3) and \<open>tot1\<close> (fragment 1 of 1) the buffer holds two packet
  numbers, one more than the total declared last, and nothing is assembled.
\<close>

theorem buffer_exceeds_declared_total:
  "multi tot3 \<and> multi tot1
   \<and> multiHeader False True tot3 = Fields False 3 0 None
   \<and> multiHeader False True tot1 = Fields False 1 1 None
   \<and> deliver testLib (get testLib) [tot3, tot1] =
       Done ((get testLib)\<lparr>packets := [(0, tot3), (1, tot1)],
               events := events (get testLib) @ [Recv tot3, Recv tot1]\<rparr>)
   \<and> \<not> length (packets ((get testLib)\<lparr>packets := [(0, tot3), (1, tot1)],
               events := events (get testLib) @ [Recv tot3, Recv tot1]\<rparr>)) \<le> 1"
  by code_simp


lemma sort_key_zip: "sort_key fst (zip [0..<length fs] fs) = zip [0..<length fs] fs"
  by (rule sort_key_id_if_sorted) simp

lemma assemble_wire:
  "packets s = zip [0..<length fs] fs \<Longrightarrow>
     assemble s = wire (goldSource s) (orangeBox s) (isCompressed s) fs"
  by (simp add: assemble_def wire_def fragment_def sort_key_zip cong: if_cong)

lemma put_last:
  "put (length pre) m (zip [0..<length pre] pre) = zip [0..<length (pre @ [m])] (pre @ [m])"
proof -
  have "put k m ps = ps @ [(k, m)]" if "\<forall>j \<in> fst ` set ps. j < k" for ps :: "(nat \<times> buffer) list" and k
    using that by (induction ps) auto
  moreover have "\<forall>j \<in> fst ` set (zip [0..<length pre] pre). j < length pre"
    by (auto dest: set_zip_leftD)
  ultimately show ?thesis by simp
qed

lemma reloadLoop_single: "reloadLoop H s [m] = H s m"
  by (cases "H s m") simp_all

lemma deliver_single: "Close \<notin> set (events s) \<Longrightarrow> deliver c s [m] = onMessage c s m"
  by (cases "onMessage c s m") simp_all

lemma reloadLoop_Done: "H s m = Done s' \<Longrightarrow> reloadLoop H s (m # ms) = reloadLoop H s' ms"
  by simp

lemma deliver_Done:
  "Close \<notin> set (events s) \<Longrightarrow> onMessage c s m = Done s' \<Longrightarrow>
     deliver c s (m # ms) = deliver c s' ms"
  by simp

lemma pass:
  assumes "suf \<noteq> []"
    and "packets s = zip [0..<length pre] pre"
    and "\<forall>i < length suf. multi (suf ! i)
           \<and> multiHeader (goldSource s) (orangeBox s) (suf ! i) =
               Fields b (length pre + length suf) (length pre + i)
                 (if length pre + i = 0 then W else None)"
  shows "reloadLoop (onMessageN (Suc n) c) s suf =
           complete c (onMessageN n c)
             (s\<lparr>packets := zip [0..<length (pre @ suf)] (pre @ suf), isCompressed := b,
                 crc32CheckSum := (if pre = [] then (case W of Some w \<Rightarrow> w | None \<Rightarrow> crc32CheckSum s)
                                   else crc32CheckSum s),
                 events := events s @ map Recv suf\<rparr>)
         \<and> (Close \<notin> set (events s) \<longrightarrow>
            deliver c s suf =
              complete c (onMessageN 2 c)
                (s\<lparr>packets := zip [0..<length (pre @ suf)] (pre @ suf), isCompressed := b,
                 crc32CheckSum := (if pre = [] then (case W of Some w \<Rightarrow> w | None \<Rightarrow> crc32CheckSum s)
                                   else crc32CheckSum s),
                 events := events s @ map Recv suf\<rparr>))"
  using assms
proof (induction suf arbitrary: s pre)
  case Nil
  then show ?case by simp
next
  case (Cons m suf)
  let ?W = "if length pre = 0 then W else None"
  let ?N = "length pre + length (m # suf)"
  from Cons.prems(3) have m: "multi m"
    and h: "multiHeader (goldSource s) (orangeBox s) m = Fields b ?N (length pre) ?W"
    by (auto dest: spec[of _ 0])
  let ?s2 = "(framed (emit (Recv m) s) b ?W)\<lparr>packets := zip [0..<length (pre @ [m])] (pre @ [m])\<rparr>"
  have step: "onMessageN (Suc k) c s m =
      (if length (pre @ [m]) = ?N then complete c (onMessageN k c) ?s2 else Done ?s2)" for k
    unfolding fragment_step[OF m h]
    by (simp add: store_def Let_def framed_def Cons.prems(2) put_last split: option.splits)
  show ?case
  proof (cases suf)
    case Nil
    have eq: "?s2 = s\<lparr>packets := zip [0..<length (pre @ m # suf)] (pre @ m # suf), isCompressed := b,
                 crc32CheckSum := (if pre = [] then (case W of Some w \<Rightarrow> w | None \<Rightarrow> crc32CheckSum s)
                                   else crc32CheckSum s),
                 events := events s @ map Recv (m # suf)\<rparr>"
      by (simp add: Nil framed_def emit_def split: option.splits)
    have k: "onMessageN (Suc k) c s m = complete c (onMessageN k c) ?s2" for k
      using step[of k] by (simp add: Nil del: onMessageN.simps)
    have "reloadLoop (onMessageN (Suc n) c) s [m] = complete c (onMessageN n c) ?s2"
      unfolding reloadLoop_single by (rule k)
    moreover have "deliver c s [m] = complete c (onMessageN 2 c) ?s2"
      if "Close \<notin> set (events s)"
      unfolding deliver_single[OF that] onMessage_def numeral_3_eq_3 numeral_2_eq_2 by (rule k)
    ultimately have "reloadLoop (onMessageN (Suc n) c) s [m] = complete c (onMessageN n c) ?s2
      \<and> (Close \<notin> set (events s) \<longrightarrow> deliver c s [m] = complete c (onMessageN 2 c) ?s2)"
      by blast
    then show ?thesis
      unfolding eq Nil by blast
  next
    case (Cons m' suf')
    have f2: "goldSource ?s2 = goldSource s" "orangeBox ?s2 = orangeBox s"
      "events ?s2 = events s @ [Recv m]"
      by (simp_all add: framed_def emit_def split: option.splits)
    have p2: "packets ?s2 = zip [0..<length (pre @ [m])] (pre @ [m])"
      by simp
    have h2: "\<forall>i < length suf. multi (suf ! i)
           \<and> multiHeader (goldSource ?s2) (orangeBox ?s2) (suf ! i) =
               Fields b (length (pre @ [m]) + length suf) (length (pre @ [m]) + i)
                 (if length (pre @ [m]) + i = 0 then W else None)"
    proof (intro allI impI)
      fix i assume "i < length suf"
      then have "Suc i < length (m # suf)" by simp
      with Cons.prems(3) have "multi ((m # suf) ! Suc i)
           \<and> multiHeader (goldSource s) (orangeBox s) ((m # suf) ! Suc i) =
               Fields b ?N (length pre + Suc i) (if length pre + Suc i = 0 then W else None)"
        by blast
      then show "multi (suf ! i)
           \<and> multiHeader (goldSource ?s2) (orangeBox ?s2) (suf ! i) =
               Fields b (length (pre @ [m]) + length suf) (length (pre @ [m]) + i)
                 (if length (pre @ [m]) + i = 0 then W else None)"
        by (simp add: f2)
    qed
    have ne: "suf \<noteq> []" by (simp add: Cons)
    note IH = Cons.IH[OF ne p2 h2]
    have eq: "?s2\<lparr>packets := zip [0..<length ((pre @ [m]) @ suf)] ((pre @ [m]) @ suf), isCompressed := b,
                 crc32CheckSum := (if pre @ [m] = [] then (case W of Some w \<Rightarrow> w | None \<Rightarrow> crc32CheckSum ?s2)
                                   else crc32CheckSum ?s2),
                 events := events ?s2 @ map Recv suf\<rparr>
          = s\<lparr>packets := zip [0..<length (pre @ m # suf)] (pre @ m # suf), isCompressed := b,
                 crc32CheckSum := (if pre = [] then (case W of Some w \<Rightarrow> w | None \<Rightarrow> crc32CheckSum s)
                                   else crc32CheckSum s),
                 events := events s @ map Recv (m # suf)\<rparr>"
      by (simp add: framed_def emit_def split: option.splits)
    have st: "onMessageN (Suc k) c s m = Done ?s2" for k
      using step[of k] by (simp add: Cons)
    have cl: "Close \<notin> set (events s) \<Longrightarrow> Close \<notin> set (events ?s2)"
      by (simp add: f2)
    let ?F = "s\<lparr>packets := zip [0..<length (pre @ m # suf)] (pre @ m # suf), isCompressed := b,
                 crc32CheckSum := (if pre = [] then (case W of Some w \<Rightarrow> w | None \<Rightarrow> crc32CheckSum s)
                                   else crc32CheckSum s),
                 events := events s @ map Recv (m # suf)\<rparr>"
    have A: "reloadLoop (onMessageN (Suc n) c) s (m # suf) =
            reloadLoop (onMessageN (Suc n) c) ?s2 suf"
      by (rule reloadLoop_Done) (rule st)
    have B: "deliver c s (m # suf) = deliver c ?s2 suf" if "Close \<notin> set (events s)"
      using that by (rule deliver_Done) (simp only: onMessage_def numeral_3_eq_3 st)
    from IH have IH1: "reloadLoop (onMessageN (Suc n) c) ?s2 suf = complete c (onMessageN n c) ?F"
      and IH2: "Close \<notin> set (events ?s2) \<longrightarrow>
                  deliver c ?s2 suf = complete c (onMessageN 2 c) ?F"
      unfolding eq by blast+
    show ?thesis
    proof (intro conjI impI)
      show "reloadLoop (onMessageN (Suc n) c) s (m # suf) = complete c (onMessageN n c) ?F"
        unfolding A by (rule IH1)
      assume c: "Close \<notin> set (events s)"
      show "deliver c s (m # suf) = complete c (onMessageN 2 c) ?F"
        unfolding B[OF c] using IH2 cl[OF c] by blast
    qed
  qed
qed


lemma map_snd_zip_upt: "map snd (zip [0..<length fs] fs) = fs"
  by (simp add: map_snd_zip)

lemma get_fields:
  "retryCount (get c) = 0" "packets (get c) = []" "\<not> isCompressed (get c)"
  "crc32CheckSum (get c) = 0" "\<not> goldSource (get c)" "orangeBox (get c)"
  "events (get c) = [Send (request (header c) None)]"
  by (simp_all add: get_def sendRequest_def init_def)

lemma complete_fallback:
  "isCompressed s \<Longrightarrow> orangeBox s \<Longrightarrow> bunzip c (assemble s) = None \<Longrightarrow>
     complete c h s = reload h (demote OrangeBox (emit (Payload (assemble s)) s)) None"
  by (simp add: complete_def Let_def)

lemma complete_verified:
  "isCompressed s \<Longrightarrow> bunzip c (assemble s) = Some P \<Longrightarrow> crc32_buf c P = crc32CheckSum s \<Longrightarrow>
     complete c h s = dispatch (emit (Payload (assemble s)) s) P"
  by (simp add: complete_def Let_def)

lemma reload_None:
  "reload h s None = reloadLoop h ((emit Reload s)\<lparr>packets := []\<rparr>) (map snd (packets s))"
  by (simp add: reload_def Let_def)





section \<open>A compressed response whose checksum does not match\<close>

lemma complete_mismatch:
  "isCompressed s \<Longrightarrow> bunzip c (assemble s) = Some P \<Longrightarrow> crc32_buf c P \<noteq> crc32CheckSum s \<Longrightarrow>
     complete c h s =
       Thrown (ChecksumMismatch (crc32CheckSum s) (crc32_buf c P)) (emit (Payload (assemble s)) s)"
  by (simp add: complete_def Let_def)

lemma settlement_Recv: "settlement (Send r # map Recv fs @ [Payload p]) = None"
  by (auto simp: settlement_def find_None_iff)

lemma find_append_None: "find P xs = None \<Longrightarrow> find P (xs @ ys) = find P ys"
  by (induction xs) (auto split: if_splits)


text \<open>
  C1.  Let \<open>fs\<close> be the fragments, in order, of a compressed response in the current
  framing, the first carrying the checksum \<open>w\<close>, and let the octets assembled from them
  decompress to \<open>P\<close>.  If the checksum of \<open>P\<close> is not \<open>w\<close> (whatever the checksum of the
  octets as they were sent), the call that receives \<open>fs\<close> compares \<open>w\<close> with the checksum of
  \<open>P\<close> and throws the checksum-mismatch error out of the message handler.  It has then
  called neither \<open>resolve\<close> nor the decoder, but neither \<open>reject\<close> nor \<open>socket.close()\<close>:
  the error does not reach the caller, whose promise is still pending and is settled
  only by the timer, with "Request timed out".
\<close>

theorem checksum_mismatch_is_thrown:
  assumes "fs \<noteq> []"
    and hdr: "\<forall>k < length fs. multi (fs ! k)
        \<and> multiHeader False True (fs ! k) =
            Fields True (length fs) k (if k = 0 then Some w else None)"
    and dec: "bunzip c (wire False True True fs) = Some P"
    and crc: "crc32_buf c P \<noteq> w"
  shows "let es = Send (request (header c) None) # map Recv fs
                    @ [Payload (wire False True True fs)];
             S = (get c)\<lparr>packets := zip [0..<length fs] fs, isCompressed := True,
                          crc32CheckSum := w, events := es\<rparr>
         in deliver c (get c) fs = Thrown (ChecksumMismatch w (crc32_buf c P)) S
            \<and> settlement es = None
            \<and> Close \<notin> set es
            \<and> settlement (events (onTimeout S)) = Some (Reject RequestTimedOut)"
proof -
  define es where "es = Send (request (header c) None) # map Recv fs
                    @ [Payload (wire False True True fs)]"
  define S where "S = (get c)\<lparr>packets := zip [0..<length fs] fs, isCompressed := True,
                          crc32CheckSum := w, events := es\<rparr>"
  define S1 where "S1 = (get c)\<lparr>packets := zip [0..<length fs] fs, isCompressed := True,
                crc32CheckSum := w, events := events (get c) @ map Recv fs\<rparr>"
  have S1: "packets S1 = zip [0..<length fs] fs" "isCompressed S1" "orangeBox S1"
    "\<not> goldSource S1" "crc32CheckSum S1 = w"
    by (simp_all add: S1_def get_fields)
  have h1: "\<forall>i < length fs. multi (fs ! i)
           \<and> multiHeader (goldSource (get c)) (orangeBox (get c)) (fs ! i) =
               Fields True (length ([]::buffer list) + length fs) (length ([]::buffer list) + i)
                 (if length ([]::buffer list) + i = 0 then Some w else None)"
    using hdr by (simp add: get_fields)
  have p1: "packets (get c) = zip [0..<length ([]::buffer list)] []"
    by (simp add: get_fields)
  have "Close \<notin> set (events (get c))"
    by (simp add: get_fields)
  with pass[OF assms(1) p1 h1, of 2 c]
  have d1: "deliver c (get c) fs = complete c (onMessageN 2 c) S1"
    by (simp add: S1_def del: onMessageN.simps)
  have a1: "assemble S1 = wire False True True fs"
    using assemble_wire[OF S1(1)] S1 by simp
  have c1: "complete c (onMessageN 2 c) S1 =
      Thrown (ChecksumMismatch (crc32CheckSum S1) (crc32_buf c P)) (emit (Payload (assemble S1)) S1)"
    by (rule complete_mismatch) (simp_all add: S1 a1 dec crc)
  have e: "emit (Payload (assemble S1)) S1 = S"
    unfolding a1 by (simp add: S_def es_def S1_def emit_def get_fields)
  have 1: "deliver c (get c) fs = Thrown (ChecksumMismatch w (crc32_buf c P)) S"
    unfolding d1 c1 e S1(5) ..
  have 2: "settlement es = None"
    unfolding es_def by (rule settlement_Recv)
  have 3: "Close \<notin> set es"
    by (auto simp: es_def)
  have "events (onTimeout S) = es @ [Reject RequestTimedOut, Close]"
    by (simp add: onTimeout_def emit_def S_def)
  moreover have "find settles (es @ [Reject RequestTimedOut, Close]) = Some (Reject RequestTimedOut)"
    using 2 by (simp add: settlement_def find_append_None)
  ultimately have 4: "settlement (events (onTimeout S)) = Some (Reject RequestTimedOut)"
    by (simp add: settlement_def)
  from 1 2 3 4 show ?thesis
    unfolding Let_def es_def [symmetric] S_def [symmetric] by blast
qed

theorem checksum_mismatch_is_thrown_witness:
  "[cw0, bz1] \<noteq> []
   \<and> multi cw0 \<and> multi bz1
   \<and> multiHeader False True cw0 = Fields True 2 0 (Some 1640)
   \<and> multiHeader False True bz1 = Fields True 2 1 None
   \<and> bunzip testLib (wire False True True [cw0, bz1]) =
       Some [0xFF, 0xFF, 0xFF, 0xFF, 0x45, 1, 0, 0x73, 0, 0x76, 0]
   \<and> crc32_buf testLib (wire False True True [cw0, bz1]) = 1640
   \<and> crc32_buf testLib [0xFF, 0xFF, 0xFF, 0xFF, 0x45, 1, 0, 0x73, 0, 0x76, 0] \<noteq> 1640
   \<and> deliver testLib (get testLib) [cw0, bz1] =
       Thrown (ChecksumMismatch 1640 1323)
         ((get testLib)\<lparr>packets := [(0, cw0), (1, bz1)], isCompressed := True,
            crc32CheckSum := 1640,
            events := [Send [0xFF, 0xFF, 0xFF, 0xFF, 0x56, 0xFF, 0xFF, 0xFF, 0xFF],
                       Recv cw0, Recv bz1,
                       Payload [0x42, 0x5A, 0x68, 0x39, 0xFF, 0xFF, 0xFF, 0xFF, 0x45, 1, 0,
                                0x73, 0, 0x76, 0]]\<rparr>)
   \<and> settlement (events (onTimeout
         ((get testLib)\<lparr>packets := [(0, cw0), (1, bz1)], isCompressed := True,
            crc32CheckSum := 1640,
            events := [Send [0xFF, 0xFF, 0xFF, 0xFF, 0x56, 0xFF, 0xFF, 0xFF, 0xFF],
                       Recv cw0, Recv bz1,
                       Payload [0x42, 0x5A, 0x68, 0x39, 0xFF, 0xFF, 0xFF, 0xFF, 0x45, 1, 0,
                                0x73, 0, 0x76, 0]]\<rparr>)))
       = Some (Reject RequestTimedOut)"
proof -
  let ?fs = "[cw0, bz1]"
  let ?P = "[0xFF, 0xFF, 0xFF, 0xFF, 0x45, 1, 0, 0x73, 0, 0x76, 0] :: buffer"
  let ?S = "(get testLib)\<lparr>packets := [(0, cw0), (1, bz1)], isCompressed := True,
            crc32CheckSum := 1640,
            events := [Send [0xFF, 0xFF, 0xFF, 0xFF, 0x56, 0xFF, 0xFF, 0xFF, 0xFF],
                       Recv cw0, Recv bz1,
                       Payload [0x42, 0x5A, 0x68, 0x39, 0xFF, 0xFF, 0xFF, 0xFF, 0x45, 1, 0,
                                0x73, 0, 0x76, 0]]\<rparr>"
  have ne: "?fs \<noteq> []"
    by simp
  have m: "multi cw0" "multi bz1"
    by code_simp+
  have f: "multiHeader False True cw0 = Fields True 2 0 (Some 1640)"
    "multiHeader False True bz1 = Fields True 2 1 None"
    by code_simp+
  have hdr: "\<forall>k < length ?fs. multi (?fs ! k)
        \<and> multiHeader False True (?fs ! k) =
            Fields True (length ?fs) k (if k = 0 then Some 1640 else None)"
    using m f by (simp add: less_Suc_eq numeral_2_eq_2 all_conj_distrib)
  have dec: "bunzip testLib (wire False True True ?fs) = Some ?P"
    by code_simp
  have sent: "crc32_buf testLib (wire False True True ?fs) = 1640"
    by code_simp
  have crc: "crc32_buf testLib ?P \<noteq> 1640"
    by code_simp
  have S: "(get testLib)\<lparr>packets := zip [0..<length ?fs] ?fs, isCompressed := True,
                          crc32CheckSum := 1640,
                          events := Send (request (header testLib) None) # map Recv ?fs
                            @ [Payload (wire False True True ?fs)]\<rparr> = ?S"
    by code_simp
  have v: "crc32_buf testLib ?P = 1323"
    by code_simp
  note t = checksum_mismatch_is_thrown [where fs = "[cw0, bz1]" and c = testLib and w = 1640
      and P = "[0xFF, 0xFF, 0xFF, 0xFF, 0x45, 1, 0, 0x73, 0, 0x76, 0]",
      OF ne hdr dec crc, unfolded Let_def S v]
  from t have r: "deliver testLib (get testLib) ?fs = Thrown (ChecksumMismatch 1640 1323) ?S"
    by (rule conjunct1)
  from t have p: "settlement (events (onTimeout ?S)) = Some (Reject RequestTimedOut)"
    by (elim conjE)
  show ?thesis
    by (intro conjI) (rule ne m f dec sent crc r p)+
qed

end
